theory Spec2Isabelle
  imports Main "HOL-Library.Multiset"
begin

section \<open>The task manager of GestorTareas.py\<close>

text \<open>
  The class \<open>TaskManager\<close> keeps four fields: \<open>tasks\<close>, a Python list of tuples
  \<open>(priority, counter, task)\<close> maintained with \<open>heapq\<close>; \<open>completed_tasks\<close>, a set of
  names; \<open>task_dependencies\<close>, a dictionary from a name to the list of names that
  declared it as a dependency; and \<open>counter\<close>. A task is a dictionary with the keys
  \<open>name\<close>, \<open>priority\<close>, \<open>dependencies\<close> and \<open>deadline\<close>.

  Every method is modelled as a function from the manager to a result and the manager
  after the call, so that what a call leaves behind is a value one can state facts about.
\<close>

subsection \<open>Data\<close>

record task =
  name :: string
  priority :: int
  dependencies :: "string list"
  deadline :: "string option"

type_synonym entry = "int \<times> nat \<times> task"

definition entry_priority :: "entry \<Rightarrow> int" where
  "entry_priority e = fst e"

definition entry_counter :: "entry \<Rightarrow> nat" where
  "entry_counter e = fst (snd e)"

definition entry_task :: "entry \<Rightarrow> task" where
  "entry_task e = snd (snd e)"

record task_manager =
  tasks :: "entry list"
  completed_tasks :: "string set"
  task_dependencies :: "string \<rightharpoonup> string list"
  counter :: nat

text \<open>Exceptions of the Python library calls the methods make (\<open>int\<close>, \<open><\<close> on tuples).\<close>

datatype py_exception = PyValueError | PyTypeError | PyOverflowError

text \<open>
  What \<open>add_task\<close> raises. Its three \<open>ValueError\<close>s differ by message only: the empty
  name, the priority that is no integer, and the dependencies that do not exist (the
  message lists them). Any other exception leaves the method as it is.
\<close>

datatype error =
    InvalidName
  | InvalidPriority
  | UnknownDependency "string list"
  | Uncaught py_exception

text \<open>
  \<open>complete_task\<close> raises nothing of its own and returns \<open>None\<close> on every path; the
  paths differ by what they print and by what they change.
\<close>

datatype completion =
    NotFound
  | UnmetDependencies "string list"
  | BlockedByDependents "string list"
  | Completed
  | CompletionRaised py_exception

subsection \<open>Python values and library functions\<close>

text \<open>
  The argument \<open>priority\<close> is whatever the caller passes; \<open>main\<close> passes the text the
  user typed. A float is written as mantissa and binary exponent (the value is
  \<open>m * 2 ^ e\<close>), which is what a finite IEEE double is.
\<close>

datatype py_float = Finite int int | Infinity | NaN

datatype py_value = PyStr string | PyInt int | PyFloat py_float | PyNone

text \<open>
  \<open>str.strip()\<close> removes the characters for which \<open>str.isspace\<close> holds; among the code
  points below 256 these are 9 to 13, 28 to 32, 133 and 160.
\<close>

definition py_isspace :: "char \<Rightarrow> bool" where
  "py_isspace c =
     (let n = (of_char c :: nat)
      in (9 \<le> n \<and> n \<le> 13) \<or> (28 \<le> n \<and> n \<le> 32) \<or> n = 133 \<or> n = 160)"

definition py_strip :: "string \<Rightarrow> string" where
  "py_strip s = rev (dropWhile py_isspace (rev (dropWhile py_isspace s)))"

text \<open>
  \<open>int\<close> turns the whitespace beyond ASCII into spaces and then skips what the C
  function \<open>isspace\<close> accepts: 9 to 13, 32, 133 and 160, but not 28 to 31.
\<close>

definition py_int_isspace :: "char \<Rightarrow> bool" where
  "py_int_isspace c =
     (let n = (of_char c :: nat)
      in (9 \<le> n \<and> n \<le> 13) \<or> n = 32 \<or> n = 133 \<or> n = 160)"

definition py_int_strip :: "string \<Rightarrow> string" where
  "py_int_strip s = rev (dropWhile py_int_isspace (rev (dropWhile py_int_isspace s)))"

definition is_digit :: "char \<Rightarrow> bool" where
  "is_digit c = (let n = (of_char c :: nat) in 48 \<le> n \<and> n \<le> 57)"

definition digit_val :: "char \<Rightarrow> int" where
  "digit_val c = int (of_char c) - 48"

text \<open>
  The digits after the first: a digit, or one underscore followed by a digit.
\<close>

fun py_digits :: "int \<Rightarrow> string \<Rightarrow> int option" where
  "py_digits acc [] = Some acc"
| "py_digits acc (c # cs) =
     (if is_digit c then py_digits (acc * 10 + digit_val c) cs
      else if c = CHR ''_'' then
        (case cs of
           [] \<Rightarrow> None
         | d # ds \<Rightarrow> if is_digit d then py_digits (acc * 10 + digit_val d) ds else None)
      else None)"

text \<open>
  The limit of the interpreter on the number of digits that \<open>int\<close> converts, at its
  default: leading zeros count, underscores do not.
\<close>

definition int_max_str_digits :: nat where
  "int_max_str_digits = 4300"

definition py_unsigned :: "string \<Rightarrow> int option" where
  "py_unsigned s =
     (case s of
        [] \<Rightarrow> None
      | c # cs \<Rightarrow>
          if is_digit c then
            (case py_digits (digit_val c) cs of
               None \<Rightarrow> None
             | Some v \<Rightarrow>
                 if length (filter is_digit s) > int_max_str_digits then None else Some v)
          else None)"

text \<open>
  \<open>int(s)\<close> for a string, base ten: surrounding whitespace, an optional sign, then
  digits, no more of them than the limit.
\<close>

definition py_int_of_str :: "string \<Rightarrow> int option" where
  "py_int_of_str s =
     (case py_int_strip s of
        [] \<Rightarrow> None
      | c # cs \<Rightarrow>
          if c = CHR ''-'' then map_option uminus (py_unsigned cs)
          else if c = CHR ''+'' then py_unsigned cs
          else py_unsigned (c # cs))"

text \<open>\<open>int(x)\<close> for a float truncates towards zero.\<close>

definition py_trunc :: "int \<Rightarrow> int \<Rightarrow> int" where
  "py_trunc m e =
     (if 0 \<le> e then m * 2 ^ nat e
      else if 0 \<le> m then m div 2 ^ nat (- e)
      else - ((- m) div 2 ^ nat (- e)))"

fun py_int :: "py_value \<Rightarrow> py_exception + int" where
  "py_int (PyStr s) = (case py_int_of_str s of None \<Rightarrow> Inl PyValueError | Some i \<Rightarrow> Inr i)"
| "py_int (PyInt i) = Inr i"
| "py_int (PyFloat (Finite m e)) = Inr (py_trunc m e)"
| "py_int (PyFloat Infinity) = Inl PyOverflowError"
| "py_int (PyFloat NaN) = Inl PyValueError"
| "py_int PyNone = Inl PyTypeError"

text \<open>
  \<open>a < b\<close> on two heap entries. Python compares tuples at the first position where they
  differ: the priorities, then the counters, then the task dictionaries, and \<open><\<close> on two
  dictionaries raises \<open>TypeError\<close>. Equal tuples are not less.
\<close>

definition entry_lt :: "entry \<Rightarrow> entry \<Rightarrow> py_exception + bool" where
  "entry_lt a b =
     (if entry_priority a \<noteq> entry_priority b then Inr (entry_priority a < entry_priority b)
      else if entry_counter a \<noteq> entry_counter b then Inr (entry_counter a < entry_counter b)
      else if entry_task a = entry_task b then Inr False
      else Inl PyTypeError)"

subsection \<open>heapq\<close>

text \<open>
  \<open>heapq._siftdown(heap, startpos, pos)\<close> with \<open>newitem = heap[pos]\<close> read before the loop:
  parents larger than \<open>newitem\<close> move down one level, then \<open>newitem\<close> is stored. An
  exception of the comparison leaves the list as the loop had it; \<open>Inl\<close> carries both.
\<close>

function siftdown :: "entry list \<Rightarrow> nat \<Rightarrow> nat \<Rightarrow> entry \<Rightarrow> (py_exception \<times> entry list) + entry list" where
  "siftdown heap startpos pos newitem =
     (if pos > startpos then
        (let parentpos = (pos - 1) div 2;
             parent = heap ! parentpos
         in case entry_lt newitem parent of
              Inl e \<Rightarrow> Inl (e, heap)
            | Inr True \<Rightarrow> siftdown (heap[pos := parent]) startpos parentpos newitem
            | Inr False \<Rightarrow> Inr (heap[pos := newitem]))
      else Inr (heap[pos := newitem]))"
  by pat_completeness auto
termination
  by (relation "measure (\<lambda>(heap, startpos, pos, newitem). pos)") auto

text \<open>\<open>heapq.heappush\<close>: append, then sift the new last element towards the root.\<close>

definition heappush :: "entry list \<Rightarrow> entry \<Rightarrow> (py_exception \<times> entry list) + entry list" where
  "heappush heap item = siftdown (heap @ [item]) 0 (length heap) item"

text \<open>
  The loop of \<open>heapq._siftup\<close>: the smaller child moves up until \<open>pos\<close> is a leaf. It
  returns the list and the leaf reached.
\<close>

function siftup_loop :: "entry list \<Rightarrow> nat \<Rightarrow> (py_exception \<times> entry list) + (entry list \<times> nat)" where
  "siftup_loop heap pos =
     (let childpos = 2 * pos + 1 in
      if childpos < length heap then
        (let rightpos = childpos + 1 in
         if rightpos < length heap then
           (case entry_lt (heap ! childpos) (heap ! rightpos) of
              Inl e \<Rightarrow> Inl (e, heap)
            | Inr True \<Rightarrow> siftup_loop (heap[pos := heap ! childpos]) childpos
            | Inr False \<Rightarrow> siftup_loop (heap[pos := heap ! rightpos]) rightpos)
         else siftup_loop (heap[pos := heap ! childpos]) childpos)
      else Inr (heap, pos))"
  by pat_completeness auto
termination
  by (relation "measure (\<lambda>(heap, pos). length heap - pos)") auto

definition siftup :: "entry list \<Rightarrow> nat \<Rightarrow> (py_exception \<times> entry list) + entry list" where
  "siftup heap pos =
     (let newitem = heap ! pos in
      case siftup_loop heap pos of
        Inl r \<Rightarrow> Inl r
      | Inr (heap', leaf) \<Rightarrow> siftdown heap' pos leaf newitem)"

text \<open>\<open>heapq.heapify\<close>: \<open>for i in reversed(range(n//2)): _siftup(x, i)\<close>.\<close>

fun heapify_from :: "nat list \<Rightarrow> entry list \<Rightarrow> (py_exception \<times> entry list) + entry list" where
  "heapify_from [] heap = Inr heap"
| "heapify_from (i # is) heap =
     (case siftup heap i of
        Inl r \<Rightarrow> Inl r
      | Inr heap' \<Rightarrow> heapify_from is heap')"

definition heapify :: "entry list \<Rightarrow> (py_exception \<times> entry list) + entry list" where
  "heapify heap = heapify_from (rev [0 ..< length heap div 2]) heap"

subsection \<open>The methods\<close>

definition is_task_executable :: "task_manager \<Rightarrow> task \<Rightarrow> bool \<times> string list" where
  "is_task_executable m t =
     (if dependencies t = [] then (True, [])
      else
        (let pending_dependencies =
               filter (\<lambda>dep. dep \<notin> completed_tasks m) (dependencies t)
         in (length pending_dependencies = 0, pending_dependencies)))"

text \<open>The names of the pending tasks, \<open>[task['name'] for _, _, task in self.tasks]\<close>.\<close>

definition pending_names :: "task_manager \<Rightarrow> string list" where
  "pending_names m = map (\<lambda>e. name (entry_task e)) (tasks m)"

text \<open>
  The loop at the end of \<open>add_task\<close> that registers the new task under each of its
  dependencies: a missing key starts with the empty list, then the name is appended.
\<close>

fun record_edges :: "string list \<Rightarrow> string \<Rightarrow> (string \<rightharpoonup> string list) \<Rightarrow> (string \<rightharpoonup> string list)" where
  "record_edges [] n td = td"
| "record_edges (dep # deps) n td =
     record_edges deps n
       (td(dep \<mapsto> (case td dep of None \<Rightarrow> [] | Some ds \<Rightarrow> ds) @ [n]))"

text \<open>
  \<open>add_task\<close>. The argument \<open>dependencies\<close> defaults to \<open>None\<close>, which
  \<open>dependencies or []\<close> turns into the empty list. The result is the error raised or
  the task returned, and the manager as the call leaves it. The call of \<open>save_tasks\<close>
  at the end writes the file and changes no field.
\<close>

definition add_task ::
  "task_manager \<Rightarrow> string \<Rightarrow> py_value \<Rightarrow> string list option \<Rightarrow> string option
     \<Rightarrow> (error + task) \<times> task_manager" where
  "add_task m nm prio deps_arg dl =
     (if nm = [] \<or> py_strip nm = [] then (Inl InvalidName, m)
      else
        (case py_int prio of
           Inl PyValueError \<Rightarrow> (Inl InvalidPriority, m)
         | Inl e \<Rightarrow> (Inl (Uncaught e), m)
         | Inr p \<Rightarrow>
             (let deps = (case deps_arg of None \<Rightarrow> [] | Some ds \<Rightarrow> ds);
                  invalid_dependencies =
                    filter (\<lambda>dep. dep \<notin> set (pending_names m) \<and> dep \<notin> completed_tasks m) deps
              in if invalid_dependencies \<noteq> [] then (Inl (UnknownDependency invalid_dependencies), m)
                 else
                   (let t = \<lparr>name = nm, priority = p, dependencies = deps, deadline = dl\<rparr>;
                        c = counter m + 1
                    in case heappush (tasks m) (p, c, t) of
                         Inl (e, heap) \<Rightarrow> (Inl (Uncaught e), m\<lparr>tasks := heap, counter := c\<rparr>)
                       | Inr heap \<Rightarrow>
                           (Inr t,
                            m\<lparr>tasks := heap, counter := c,
                              task_dependencies := record_edges deps nm (task_dependencies m)\<rparr>)))))"

text \<open>
  The search loop of \<open>complete_task\<close>: the first entry, in list order, whose task has the
  name, with its index.
\<close>

fun find_task :: "string \<Rightarrow> entry list \<Rightarrow> nat \<Rightarrow> (nat \<times> task) option" where
  "find_task n [] i = None"
| "find_task n (e # es) i =
     (if name (entry_task e) = n then Some (i, entry_task e) else find_task n es (Suc i))"

text \<open>\<open>del xs[index]\<close> for an index in range.\<close>

definition del_index :: "'a list \<Rightarrow> nat \<Rightarrow> 'a list" where
  "del_index xs i = take i xs @ drop (Suc i) xs"

definition complete_task :: "task_manager \<Rightarrow> string \<Rightarrow> completion \<times> task_manager" where
  "complete_task m task_name =
     (case find_task task_name (tasks m) 0 of
        None \<Rightarrow> (NotFound, m)
      | Some (index, t) \<Rightarrow>
          (let pending_dependencies = snd (is_task_executable m t) in
           if pending_dependencies \<noteq> [] then (UnmetDependencies pending_dependencies, m)
           else
             (let tareas_bloqueadas =
                    (case task_dependencies m task_name of
                       None \<Rightarrow> []
                     | Some dependientes \<Rightarrow>
                         filter (\<lambda>dep. dep \<notin> completed_tasks m) dependientes)
              in if tareas_bloqueadas \<noteq> [] then (BlockedByDependents tareas_bloqueadas, m)
                 else
                   (case heapify (del_index (tasks m) index) of
                      Inl (e, heap) \<Rightarrow> (CompletionRaised e, m\<lparr>tasks := heap\<rparr>)
                    | Inr heap \<Rightarrow>
                        (Completed,
                         m\<lparr>tasks := heap,
                           completed_tasks := insert task_name (completed_tasks m)\<rparr>)))))"

text \<open>
  Option 2 of the menu lists the pending entries in the order of
  \<open>sorted(task_manager.tasks, key=lambda x: x[0])\<close>. Python's \<open>sorted\<close> is stable, and a
  stable sort has one result, the one insertion sort gives.
\<close>

definition listed_tasks :: "task_manager \<Rightarrow> entry list" where
  "listed_tasks m = sort_key (\<lambda>x. fst x) (tasks m)"

subsection \<open>The file\<close>

text \<open>
  \<open>save_tasks\<close> writes one JSON object with three members, and \<open>load_tasks\<close> reads it
  back; \<open>json.dump\<close> followed by \<open>json.load\<close> returns strings, integers, \<open>None\<close>, lists and
  dictionaries with string keys as they were, so the file is modelled by the object
  written. A file is absent, unreadable as JSON, or holds such an object.
\<close>

record snapshot =
  json_tasks :: "task list"
  json_completed_tasks :: "string list"
  json_task_dependencies :: "string \<rightharpoonup> string list"

datatype tasks_file = Missing | Corrupt | Stored snapshot

text \<open>
  What \<open>save_tasks\<close> may write for a manager: the task dictionaries in list order, the
  completed names in the order in which \<open>list(self.completed_tasks)\<close> enumerates the
  set, which Python leaves open, and the dictionary of dependents.
\<close>

definition save_tasks :: "task_manager \<Rightarrow> snapshot \<Rightarrow> bool" where
  "save_tasks m d \<longleftrightarrow>
     json_tasks d = map entry_task (tasks m) \<and>
     distinct (json_completed_tasks d) \<and>
     set (json_completed_tasks d) = completed_tasks m \<and>
     json_task_dependencies d = task_dependencies m"

definition empty_snapshot :: snapshot where
  "empty_snapshot = \<lparr>json_tasks = [], json_completed_tasks = [], json_task_dependencies = Map.empty\<rparr>"

text \<open>
  \<open>load_tasks\<close>: entries are numbered from 0 in file order, the counter becomes their
  number. Without a readable file the three collections are emptied, the counter is
  left alone, and the empty state is saved. The result is the manager and the file.
\<close>

definition load_tasks :: "task_manager \<Rightarrow> tasks_file \<Rightarrow> task_manager \<times> tasks_file" where
  "load_tasks m f =
     (case f of
        Stored d \<Rightarrow>
          (m\<lparr>tasks := map (\<lambda>(index, t). (priority t, index, t)) (enumerate 0 (json_tasks d)),
             completed_tasks := set (json_completed_tasks d),
             task_dependencies := json_task_dependencies d,
             counter := length (json_tasks d)\<rparr>,
           f)
      | _ \<Rightarrow>
          (m\<lparr>tasks := [], completed_tasks := {}, task_dependencies := Map.empty\<rparr>,
           Stored empty_snapshot))"

text \<open>\<open>TaskManager()\<close>: the fields of \<open>__init__\<close>, then \<open>load_tasks\<close>.\<close>

definition new_manager :: "tasks_file \<Rightarrow> task_manager \<times> tasks_file" where
  "new_manager f =
     load_tasks \<lparr>tasks = [], completed_tasks = {}, task_dependencies = Map.empty, counter = 0\<rparr> f"

text \<open>
  The managers a program can hold: one constructed from some file, and whatever
  \<open>add_task\<close> and \<open>complete_task\<close> leave behind.
\<close>

inductive reachable :: "task_manager \<Rightarrow> bool" where
  init: "reachable (fst (new_manager f))"
| add: "reachable m \<Longrightarrow> reachable (snd (add_task m nm prio deps dl))"
| complete: "reachable m \<Longrightarrow> reachable (snd (complete_task m nm))"

text \<open>
  A set of entries on which \<open><\<close> never raises: no two of them agree on priority and
  counter and differ in the task.
\<close>

definition comparable :: "entry set \<Rightarrow> bool" where
  "comparable S = (\<forall>a\<in>S. \<forall>b\<in>S. entry_lt a b \<noteq> Inl PyTypeError)"

text \<open>
  The counters of the pending entries are pairwise different and none exceeds the
  counter of the manager.
\<close>

definition counters_fresh :: "task_manager \<Rightarrow> bool" where
  "counters_fresh m \<longleftrightarrow>
     distinct (map entry_counter (tasks m)) \<and>
     (\<forall>e\<in>set (tasks m). entry_counter e \<le> counter m)"

text \<open>
  Every dependency of a pending task lists the name of the task among its dependents.
\<close>

definition index_complete :: "task_manager \<Rightarrow> bool" where
  "index_complete m \<longleftrightarrow>
     (\<forall>e\<in>set (tasks m). \<forall>d\<in>set (dependencies (entry_task e)).
        case task_dependencies m d of
          None \<Rightarrow> False
        | Some ds \<Rightarrow> name (entry_task e) \<in> set ds)"

text \<open>
  The managers of a program that started without a readable file: constructed then,
  changed by \<open>add_task\<close> and \<open>complete_task\<close>, or constructed later from a file that
  \<open>save_tasks\<close> wrote for such a manager.
\<close>

inductive from_scratch :: "task_manager \<Rightarrow> bool" where
  no_file: "from_scratch (fst (new_manager Missing))"
| bad_file: "from_scratch (fst (new_manager Corrupt))"
| add: "from_scratch m \<Longrightarrow> from_scratch (snd (add_task m nm prio deps dl))"
| complete: "from_scratch m \<Longrightarrow> from_scratch (snd (complete_task m nm))"
| reload: "from_scratch m \<Longrightarrow> save_tasks m d \<Longrightarrow> from_scratch (fst (new_manager (Stored d)))"

text \<open>
  What a program does with a manager after constructing it: calls of \<open>add_task\<close> and
  of \<open>complete_task\<close>. \<open>assigned\<close> lists, in order, the counters that the successful
  calls of \<open>add_task\<close> in such a sequence give to their new entries, each being the
  value of \<open>self.counter\<close> after the increment.
\<close>

datatype operation =
    Add string py_value "string list option" "string option"
  | Complete string

fun assigned :: "task_manager \<Rightarrow> operation list \<Rightarrow> nat list" where
  "assigned m [] = []"
| "assigned m (Add nm prio deps dl # ops) =
     (case fst (add_task m nm prio deps dl) of
        Inl e \<Rightarrow> []
      | Inr t \<Rightarrow> [counter (snd (add_task m nm prio deps dl))]) @
     assigned (snd (add_task m nm prio deps dl)) ops"
| "assigned m (Complete nm # ops) = assigned (snd (complete_task m nm)) ops"

subsection \<open>Example runs\<close>

text \<open>A manager constructed where no file exists, and the same after \<open>add_task("A", "1")\<close>.\<close>

definition m_empty :: task_manager where
  "m_empty = fst (new_manager Missing)"

definition m_a :: task_manager where
  "m_a = snd (add_task m_empty ''A'' (PyStr ''1'') None None)"

text \<open>
  \<open>B\<close> added with the dependency \<open>A\<close>, and \<open>B\<close> added with \<open>A\<close> listed twice, as the
  menu passes it for the input \<open>A, A\<close>.
\<close>

definition m_ab :: task_manager where
  "m_ab = snd (add_task m_a ''B'' (PyStr ''2'') (Some [''A'']) None)"

definition m_dup :: task_manager where
  "m_dup = snd (add_task m_a ''B'' (PyStr ''2'') (Some [''A'', ''A'']) None)"

text \<open>
  \<open>A\<close> completed, \<open>B\<close> added with the dependency \<open>A\<close> and completed, and \<open>A\<close> added
  again. Then four tasks with the priorities 5, 1, 5, 3.
\<close>

definition m_again :: task_manager where
  "m_again =
     (let m1 = snd (complete_task m_a ''A'');
          m2 = snd (add_task m1 ''B'' (PyStr ''2'') (Some [''A'']) None);
          m3 = snd (complete_task m2 ''B'')
      in snd (add_task m3 ''A'' (PyStr ''1'') None None))"

definition m_four :: task_manager where
  "m_four =
     (let m1 = snd (add_task m_empty ''task1'' (PyStr ''5'') None None);
          m2 = snd (add_task m1 ''task2'' (PyStr ''1'') None None);
          m3 = snd (add_task m2 ''task3'' (PyStr ''5'') None None)
      in snd (add_task m3 ''task4'' (PyStr ''3'') None None))"

text \<open>
  Two tasks, the first of them completed, and the file \<open>save_tasks\<close> writes then; and the
  file for the manager that holds \<open>A\<close> and \<open>B\<close>.
\<close>

definition m_two :: task_manager where
  "m_two =
     (let m1 = snd (add_task m_empty ''task1'' (PyStr ''1'') None None)
      in snd (add_task m1 ''task2'' (PyStr ''1'') None None))"

definition m_one :: task_manager where
  "m_one = snd (complete_task m_two ''task1'')"

definition snap_one :: snapshot where
  "snap_one =
     \<lparr>json_tasks = [\<lparr>name = ''task2'', priority = 1, dependencies = [], deadline = None\<rparr>],
      json_completed_tasks = [''task1''],
      json_task_dependencies = Map.empty\<rparr>"

definition snap_ab :: snapshot where
  "snap_ab =
     \<lparr>json_tasks = [\<lparr>name = ''A'', priority = 1, dependencies = [], deadline = None\<rparr>,
                    \<lparr>name = ''B'', priority = 2, dependencies = [''A''], deadline = None\<rparr>],
      json_completed_tasks = [],
      json_task_dependencies = [''A'' \<mapsto> [''B'']]\<rparr>"

text \<open>
  A file that holds \<open>A\<close> and \<open>B\<close>, \<open>B\<close> depending on \<open>A\<close>, with an empty dictionary of
  dependents, which is also what \<open>load_tasks\<close> takes for a file without that key; and the
  manager constructed from it.
\<close>

definition snap_noidx :: snapshot where
  "snap_noidx =
     \<lparr>json_tasks = [\<lparr>name = ''A'', priority = 1, dependencies = [], deadline = None\<rparr>,
                    \<lparr>name = ''B'', priority = 2, dependencies = [''A''], deadline = None\<rparr>],
      json_completed_tasks = [],
      json_task_dependencies = Map.empty\<rparr>"

definition m_noidx :: task_manager where
  "m_noidx = fst (new_manager (Stored snap_noidx))"

section \<open>The heap operations keep the entries\<close>

declare siftdown.simps [simp del] siftup_loop.simps [simp del]

lemma entry_lt_cases: "entry_lt a b = Inl e \<Longrightarrow> e = PyTypeError"
  by (auto simp: entry_lt_def split: if_splits)

lemma comparable_subset: "comparable S \<Longrightarrow> T \<subseteq> S \<Longrightarrow> comparable T"
  by (auto simp: comparable_def)

lemma comparable_lt: "comparable S \<Longrightarrow> a \<in> S \<Longrightarrow> b \<in> S \<Longrightarrow> \<exists>r. entry_lt a b = Inr r"
  by (cases "entry_lt a b") (auto simp: comparable_def dest: entry_lt_cases)

lemma mset_update_swap:
  assumes "j < length h" "i < length h"
  shows "mset (h[i := h ! j, j := x]) = mset (h[i := x])"
proof (cases "i = j")
  case True
  then show ?thesis by simp
next
  case False
  show ?thesis
    using assms False by (simp add: mset_update)
qed

lemma siftdown_ok:
  "comparable (insert x (set h)) \<Longrightarrow> pos < length h \<Longrightarrow>
   \<exists>h'. siftdown h start pos x = Inr h' \<and> mset h' = mset (h[pos := x]) \<and> length h' = length h"
proof (induction h start pos x rule: siftdown.induct)
  case (1 heap startpos pos newitem)
  show ?case
  proof (cases "pos > startpos")
    case False
    then show ?thesis by (simp add: siftdown.simps)
  next
    case True
    let ?pp = "(pos - 1) div 2"
    let ?parent = "heap ! ?pp"
    have pp: "?pp < pos" using True by auto
    then have ppl: "?pp < length heap" using 1(3) by simp
    then have pin: "?parent \<in> set heap" by simp
    obtain r where r: "entry_lt newitem ?parent = Inr r"
      using comparable_lt[OF 1(2), of newitem ?parent] pin by auto
    show ?thesis
    proof (cases r)
      case False
      with r True show ?thesis by (simp add: siftdown.simps)
    next
      case rt: True
      have sub: "insert newitem (set (heap[pos := ?parent])) \<subseteq> insert newitem (set heap)"
        using pin set_update_subset_insert[of heap pos ?parent] by auto
      have c: "comparable (insert newitem (set (heap[pos := ?parent])))"
        by (rule comparable_subset[OF 1(2) sub])
      from r rt have r': "entry_lt newitem ?parent = Inr True" by simp
      from 1(1)[OF True refl refl r' refl c] ppl
      obtain h' where h': "siftdown (heap[pos := ?parent]) startpos ?pp newitem = Inr h'"
        "mset h' = mset (heap[pos := ?parent, ?pp := newitem])" "length h' = length heap"
        by auto
      have "mset (heap[pos := ?parent, ?pp := newitem]) = mset (heap[pos := newitem])"
        by (rule mset_update_swap[OF ppl 1(3)])
      with h' r rt True show ?thesis
        by (subst siftdown.simps) simp
    qed
  qed
qed


lemma siftup_loop_step:
  assumes k: "k < length heap" and p: "pos < length heap" and pk: "pos < k"
    and cmp: "comparable (set heap)"
    and ih: "comparable (set (heap[pos := heap ! k])) \<Longrightarrow> k < length (heap[pos := heap ! k]) \<Longrightarrow>
          \<exists>h' leaf. siftup_loop (heap[pos := heap ! k]) k = Inr (h', leaf) \<and> leaf < length h' \<and>
            k \<le> leaf \<and> length h' = length (heap[pos := heap ! k]) \<and>
            set h' \<subseteq> set (heap[pos := heap ! k]) \<and>
            mset (h'[leaf := x]) = mset (heap[pos := heap ! k, k := x])"
  shows "\<exists>h' leaf. siftup_loop (heap[pos := heap ! k]) k = Inr (h', leaf) \<and> leaf < length h' \<and>
        pos \<le> leaf \<and> length h' = length heap \<and> set h' \<subseteq> set heap \<and>
        mset (h'[leaf := x]) = mset (heap[pos := x])"
proof -
  have sub: "set (heap[pos := heap ! k]) \<subseteq> set heap"
    using k set_update_subset_insert[of heap pos "heap ! k"] by auto
  have c': "comparable (set (heap[pos := heap ! k]))"
    by (rule comparable_subset[OF cmp sub])
  have k': "k < length (heap[pos := heap ! k])" using k by simp
  from ih[OF c' k'] obtain h' leaf where
    h': "siftup_loop (heap[pos := heap ! k]) k = Inr (h', leaf)" "leaf < length h'"
      "k \<le> leaf" "length h' = length (heap[pos := heap ! k])" "set h' \<subseteq> set (heap[pos := heap ! k])"
      "mset (h'[leaf := x]) = mset (heap[pos := heap ! k, k := x])"
    by blast
  have sw: "mset (heap[pos := heap ! k, k := x]) = mset (heap[pos := x])"
    by (rule mset_update_swap[OF k p])
  have "pos \<le> leaf" using h'(3) pk by simp
  moreover have "length h' = length heap" using h'(4) by simp
  moreover have "set h' \<subseteq> set heap" using h'(5) sub by blast
  moreover have "mset (h'[leaf := x]) = mset (heap[pos := x])" using h'(6) sw by simp
  ultimately show ?thesis using h'(1,2) by blast
qed

lemma siftup_loop_ok:
  "comparable (set h) \<Longrightarrow> pos < length h \<Longrightarrow>
   \<exists>h' leaf. siftup_loop h pos = Inr (h', leaf) \<and> leaf < length h' \<and> pos \<le> leaf \<and>
     length h' = length h \<and> set h' \<subseteq> set h \<and> mset (h'[leaf := x]) = mset (h[pos := x])"
proof (induction h pos rule: siftup_loop.induct)
  case (1 heap pos)
  let ?c = "2 * pos + 1"
  let ?r = "?c + 1"
  show ?case
  proof (cases "?c < length heap")
    case False
    then have "siftup_loop heap pos = Inr (heap, pos)"
      by (subst siftup_loop.simps) simp
    then show ?thesis using 1(5) by simp
  next
    case c: True
    have pc: "pos < ?c" by simp
    show ?thesis
    proof (cases "?r < length heap")
      case False
      have eq: "siftup_loop heap pos = siftup_loop (heap[pos := heap ! ?c]) ?c"
        using c False by (subst siftup_loop.simps) simp
      show ?thesis
        unfolding eq
        by (rule siftup_loop_step[OF c 1(5) pc 1(4) 1(3)[OF refl c refl False]])
    next
      case r: True
      have pr: "pos < ?r" by simp
      have "heap ! ?c \<in> set heap" "heap ! ?r \<in> set heap" using c r by simp_all
      then obtain b where b: "entry_lt (heap ! ?c) (heap ! ?r) = Inr b"
        using comparable_lt[OF 1(4)] by blast
      show ?thesis
      proof (cases b)
        case True
        with b have bT: "entry_lt (heap ! ?c) (heap ! ?r) = Inr True" by simp
        have eq: "siftup_loop heap pos = siftup_loop (heap[pos := heap ! ?c]) ?c"
          using c r bT by (subst siftup_loop.simps) simp
        show ?thesis
          unfolding eq
          by (rule siftup_loop_step[OF c 1(5) pc 1(4) 1(1)[OF refl c refl r bT refl]])
      next
        case False
        with b have bF: "entry_lt (heap ! ?c) (heap ! ?r) = Inr False" by simp
        have eq: "siftup_loop heap pos = siftup_loop (heap[pos := heap ! ?r]) ?r"
          using c r bF by (subst siftup_loop.simps) simp
        show ?thesis
          unfolding eq
          by (rule siftup_loop_step[OF r 1(5) pr 1(4) 1(2)[OF refl c refl r bF refl]])
      qed
    qed
  qed
qed

lemma siftup_ok:
  assumes "comparable (set h)" "pos < length h"
  shows "\<exists>h'. siftup h pos = Inr h' \<and> mset h' = mset h \<and> length h' = length h"
proof -
  from siftup_loop_ok[OF assms, of "h ! pos"] obtain h1 leaf where
    l: "siftup_loop h pos = Inr (h1, leaf)" "leaf < length h1" "length h1 = length h"
      "set h1 \<subseteq> set h" "mset (h1[leaf := h ! pos]) = mset (h[pos := h ! pos])"
    by blast
  have "insert (h ! pos) (set h1) \<subseteq> set h" using l(4) assms(2) by simp
  then have "comparable (insert (h ! pos) (set h1))"
    by (rule comparable_subset[OF assms(1)])
  from siftdown_ok[OF this l(2), of pos] obtain h' where
    "siftdown h1 pos leaf (h ! pos) = Inr h'" "mset h' = mset (h1[leaf := h ! pos])" "length h' = length h1"
    by blast
  then show ?thesis using l by (simp add: siftup_def)
qed

lemma heapify_from_ok:
  "comparable (set h) \<Longrightarrow> \<forall>i\<in>set is. i < length h \<Longrightarrow>
   \<exists>h'. heapify_from is h = Inr h' \<and> mset h' = mset h"
proof (induction "is" arbitrary: h)
  case Nil
  then show ?case by simp
next
  case (Cons i "is")
  from siftup_ok[OF Cons.prems(1), of i] Cons.prems(2) obtain h1 where
    h1: "siftup h i = Inr h1" "mset h1 = mset h" "length h1 = length h" by auto
  have "set h1 = set h" using h1(2) by (rule mset_eq_setD)
  then have "comparable (set h1)" using Cons.prems(1) by simp
  moreover have "\<forall>i\<in>set is. i < length h1" using Cons.prems(2) h1(3) by simp
  ultimately obtain h' where "heapify_from is h1 = Inr h'" "mset h' = mset h1"
    using Cons.IH by blast
  then show ?case using h1 by simp
qed

lemma heapify_ok:
  assumes "comparable (set h)"
  shows "\<exists>h'. heapify h = Inr h' \<and> mset h' = mset h"
  unfolding heapify_def
  by (rule heapify_from_ok[OF assms]) auto

lemma heappush_ok:
  assumes "comparable (insert x (set h))"
  shows "\<exists>h'. heappush h x = Inr h' \<and> mset h' = add_mset x (mset h)"
proof -
  have "comparable (insert x (set (h @ [x])))" using assms by simp
  from siftdown_ok[OF this, of "length h" 0] obtain h' where
    "siftdown (h @ [x]) 0 (length h) x = Inr h'" "mset h' = mset ((h @ [x])[length h := x])"
    by auto
  then show ?thesis by (simp add: heappush_def)
qed

section \<open>What \<open>add_task\<close> rejects\<close>

lemma py_strip_empty_iff: "py_strip s = [] \<longleftrightarrow> (\<forall>c\<in>set s. py_isspace c)"
proof (cases "dropWhile py_isspace s")
  case Nil
  then have "\<forall>c\<in>set s. py_isspace c" by (simp add: dropWhile_eq_Nil_conv)
  then show ?thesis unfolding py_strip_def Nil by simp
next
  case (Cons c cs)
  then have "\<not> py_isspace c" using hd_dropWhile[of py_isspace s] by auto
  moreover have "c \<in> set s" using Cons set_dropWhileD[of c py_isspace s] by simp
  moreover have "c \<in> set (rev (dropWhile py_isspace s))" using Cons by simp
  ultimately show ?thesis
    by (auto simp: py_strip_def dropWhile_eq_Nil_conv)
qed

lemma add_task_blank:
  "nm = [] \<or> py_strip nm = [] \<Longrightarrow> add_task m nm prio deps dl = (Inl InvalidName, m)"
  by (simp add: add_task_def)

lemma add_task_bad_priority:
  "nm \<noteq> [] \<Longrightarrow> py_strip nm \<noteq> [] \<Longrightarrow> py_int prio = Inl e \<Longrightarrow>
   add_task m nm prio deps dl =
     (Inl (if e = PyValueError then InvalidPriority else Uncaught e), m)"
  by (cases e) (simp_all add: add_task_def)

lemma add_task_unknown:
  "nm \<noteq> [] \<Longrightarrow> py_strip nm \<noteq> [] \<Longrightarrow> py_int prio = Inr p \<Longrightarrow>
   filter (\<lambda>dep. dep \<notin> set (pending_names m) \<and> dep \<notin> completed_tasks m) deps \<noteq> [] \<Longrightarrow>
   add_task m nm prio (Some deps) dl =
     (Inl (UnknownDependency
        (filter (\<lambda>dep. dep \<notin> set (pending_names m) \<and> dep \<notin> completed_tasks m) deps)), m)"
  by (simp add: add_task_def Let_def)

lemma add_task_rejects:
  assumes "filter (\<lambda>dep. dep \<notin> set (pending_names m) \<and> dep \<notin> completed_tasks m) deps \<noteq> []"
  shows "snd (add_task m nm prio (Some deps) dl) = m \<and>
         (\<exists>e. fst (add_task m nm prio (Some deps) dl) = Inl e)"
proof (cases "nm = [] \<or> py_strip nm = []")
  case True
  then show ?thesis by (simp add: add_task_blank)
next
  case False
  show ?thesis
  proof (cases "py_int prio")
    case (Inl e)
    with False show ?thesis by (simp add: add_task_bad_priority)
  next
    case (Inr p)
    with False assms show ?thesis by (simp add: add_task_unknown)
  qed
qed

section \<open>The executability of a task\<close>

text \<open>
  Claim C5. \<open>is_task_executable\<close> returns the dependencies of the task that are not in
  the completed set, in the order in which the task lists them, together with whether
  there is none; for a task without dependencies that is \<open>(True, [])\<close>; and the task is
  reported executable exactly when all its dependencies are completed. The function
  returns these two values only: it has no manager to give back.
\<close>

theorem is_task_executable_pending:
  "is_task_executable m t =
     (filter (\<lambda>dep. dep \<notin> completed_tasks m) (dependencies t) = [],
      filter (\<lambda>dep. dep \<notin> completed_tasks m) (dependencies t)) \<and>
   is_task_executable m (t\<lparr>dependencies := []\<rparr>) = (True, []) \<and>
   fst (is_task_executable m t) = (set (dependencies t) \<subseteq> completed_tasks m)"
  by (auto simp: is_task_executable_def Let_def filter_empty_conv)

section \<open>Dependencies that do not exist\<close>

text \<open>
  Claim C6. When some name in the dependencies is neither the name of a pending task
  nor completed, \<open>add_task\<close> raises and leaves the manager as it was: no task stored, the
  counter not advanced, nothing added to the dictionary of dependents. The checks run
  in the order name, priority, dependencies, so with a name that is not blank and a
  priority that \<open>int\<close> accepts the error is the one about dependencies, and it carries
  every unknown name of the list, in the order of the list.
\<close>

theorem add_task_unknown_dependency:
  assumes "d \<in> set deps" and "d \<notin> set (pending_names m)" and "d \<notin> completed_tasks m"
  shows "snd (add_task m nm prio (Some deps) dl) = m \<and>
         (\<exists>e. fst (add_task m nm prio (Some deps) dl) = Inl e) \<and>
         (nm \<noteq> [] \<and> py_strip nm \<noteq> [] \<and> py_int prio = Inr p \<longrightarrow>
            fst (add_task m nm prio (Some deps) dl) =
              Inl (UnknownDependency
                (filter (\<lambda>dep. dep \<notin> set (pending_names m) \<and> dep \<notin> completed_tasks m) deps)))"
proof -
  have ne: "filter (\<lambda>dep. dep \<notin> set (pending_names m) \<and> dep \<notin> completed_tasks m) deps \<noteq> []"
    using assms by (auto simp: filter_empty_conv)
  show ?thesis
    using add_task_rejects[OF ne, of nm prio dl] add_task_unknown[of nm prio p m deps dl] ne
    by auto
qed

theorem add_task_unknown_dependency_witness:
  "snd (add_task m_a ''B'' (PyStr ''2'') (Some [''A'', ''X'', ''Y'']) None) = m_a \<and>
   fst (add_task m_a ''B'' (PyStr ''2'') (Some [''A'', ''X'', ''Y'']) None) =
     Inl (UnknownDependency [''X'', ''Y''])"
proof -
  have a: "pending_names m_a = [''A'']" by code_simp
  have b: "completed_tasks m_a = {}" by code_simp
  have c: "py_int (PyStr ''2'') = Inr 2" by code_simp
  have d: "py_strip ''B'' \<noteq> []" by code_simp
  show ?thesis
    using add_task_unknown_dependency[where d = "''X''" and deps = "[''A'', ''X'', ''Y'']" and m = m_a
        and nm = "''B''" and prio = "PyStr ''2''" and p = 2 and dl = None]
    by (simp add: a b c d del: py_int.simps)
qed

section \<open>What \<open>add_task\<close> does when it succeeds\<close>

lemma comparable_fresh:
  assumes "distinct (map entry_counter xs)" and "\<forall>e\<in>set xs. entry_counter e \<noteq> c"
  shows "comparable (insert (p, c, t) (set xs))"
proof -
  have inj: "a \<in> set xs \<Longrightarrow> b \<in> set xs \<Longrightarrow> entry_counter a = entry_counter b \<Longrightarrow> a = b" for a b
    using assms(1) by (meson distinct_map inj_onD)
  have c: "entry_counter (p, c, t) = c" by (simp add: entry_counter_def)
  show ?thesis
    unfolding comparable_def
  proof (intro ballI)
    fix a b assume a: "a \<in> insert (p, c, t) (set xs)" and b: "b \<in> insert (p, c, t) (set xs)"
    show "entry_lt a b \<noteq> Inl PyTypeError"
    proof (cases "a = b")
      case True
      then show ?thesis by (simp add: entry_lt_def)
    next
      case False
      have "entry_counter a \<noteq> entry_counter b"
      proof
        assume eq: "entry_counter a = entry_counter b"
        consider (l) "a = (p, c, t)" "b \<in> set xs" | (r) "b = (p, c, t)" "a \<in> set xs"
          | (both) "a \<in> set xs" "b \<in> set xs"
          using a b False by blast
        then show False
        proof cases
          case l
          from assms(2) l(2) have "entry_counter b \<noteq> c" by blast
          with eq l(1) c show False by simp
        next
          case r
          from assms(2) r(2) have "entry_counter a \<noteq> c" by blast
          with eq r(1) c show False by simp
        next
          case both
          from inj[OF both eq] False show False by simp
        qed
      qed
      then show ?thesis by (simp add: entry_lt_def)
    qed
  qed
qed

lemma comparable_distinct:
  assumes "distinct (map entry_counter xs)"
  shows "comparable (set xs)"
proof -
  have inj: "a \<in> set xs \<Longrightarrow> b \<in> set xs \<Longrightarrow> entry_counter a = entry_counter b \<Longrightarrow> a = b" for a b
    using assms(1) by (meson distinct_map inj_onD)
  show ?thesis
    unfolding comparable_def
  proof (intro ballI)
    fix a b assume a: "a \<in> set xs" and b: "b \<in> set xs"
    show "entry_lt a b \<noteq> Inl PyTypeError"
    proof (cases "a = b")
      case True
      then show ?thesis by (simp add: entry_lt_def)
    next
      case False
      have "entry_counter a \<noteq> entry_counter b"
        using inj[OF a b] False by blast
      then show ?thesis by (simp add: entry_lt_def)
    qed
  qed
qed

lemma add_task_success:
  assumes fresh: "counters_fresh m"
    and nm: "nm \<noteq> []" "py_strip nm \<noteq> []"
    and p: "py_int prio = Inr p"
    and deps: "set deps \<subseteq> set (pending_names m) \<union> completed_tasks m"
  shows "\<exists>heap. add_task m nm prio (Some deps) dl =
           (Inr \<lparr>name = nm, priority = p, dependencies = deps, deadline = dl\<rparr>,
            m\<lparr>tasks := heap, counter := counter m + 1,
              task_dependencies := record_edges deps nm (task_dependencies m)\<rparr>) \<and>
         mset heap =
           add_mset (p, counter m + 1, \<lparr>name = nm, priority = p, dependencies = deps, deadline = dl\<rparr>)
             (mset (tasks m))"
proof -
  let ?t = "\<lparr>name = nm, priority = p, dependencies = deps, deadline = dl\<rparr>"
  have "\<forall>e\<in>set (tasks m). entry_counter e \<noteq> counter m + 1"
    using fresh by (fastforce simp: counters_fresh_def)
  with fresh have "comparable (insert (p, counter m + 1, ?t) (set (tasks m)))"
    by (intro comparable_fresh) (simp_all add: counters_fresh_def)
  from heappush_ok[OF this] obtain heap where
    h: "heappush (tasks m) (p, counter m + 1, ?t) = Inr heap"
       "mset heap = add_mset (p, counter m + 1, ?t) (mset (tasks m))" by blast
  have inv: "filter (\<lambda>dep. dep \<notin> set (pending_names m) \<and> dep \<notin> completed_tasks m) deps = []"
    using deps by (auto simp: filter_empty_conv)
  show ?thesis
    using nm p inv h by (intro exI[of _ heap]) (simp add: add_task_def Let_def)
qed

lemma record_edges_lookup:
  "record_edges deps n td d =
     (if d \<in> set deps
      then Some ((case td d of None \<Rightarrow> [] | Some ds \<Rightarrow> ds) @ replicate (count_list deps d) n)
      else td d)"
proof (induction deps arbitrary: td)
  case Nil
  then show ?case by simp
next
  case (Cons a deps)
  show ?case
    by (simp add: Cons.IH replicate_app_Cons_same split: option.splits)
qed

lemma add_task_Inr:
  assumes "add_task m nm prio deps_arg dl = (Inr t, m')"
  shows "name t = nm \<and> dependencies t = (case deps_arg of None \<Rightarrow> [] | Some ds \<Rightarrow> ds) \<and>
         deadline t = dl \<and> py_int prio = Inr (priority t) \<and>
         counter m' = counter m + 1 \<and> completed_tasks m' = completed_tasks m \<and>
         task_dependencies m' = record_edges (dependencies t) nm (task_dependencies m) \<and>
         heappush (tasks m) (priority t, counter m + 1, t) = Inr (tasks m') \<and>
         nm \<noteq> [] \<and> py_strip nm \<noteq> [] \<and>
         filter (\<lambda>dep. dep \<notin> set (pending_names m) \<and> dep \<notin> completed_tasks m) (dependencies t) = []"
  using assms
  by (auto simp: add_task_def Let_def
      split: if_splits sum.splits py_exception.splits prod.splits)

lemma member_not_Nil: "x \<in> set xs \<Longrightarrow> xs \<noteq> []"
  by auto

lemma m_a_fresh: "counters_fresh m_a"
  by code_simp

lemma m_a_pending: "pending_names m_a = [''A'']"
  by code_simp

lemma m_a_completed: "completed_tasks m_a = {}"
  by code_simp

section \<open>Names are not checked for reuse\<close>

text \<open>
  Claim C2, as the code has it. \<open>add_task\<close> compares the new name with nothing: when
  the name is not blank, \<open>int\<close> accepts the priority and every dependency is the name
  of a pending task or completed, the call succeeds whether or not the name is already
  pending or completed. It returns the task, advances the counter by one, records the
  edges, and the pending entries are the old ones and the new one.
\<close>

theorem add_task_ignores_name_collision:
  assumes "counters_fresh m"
    and "nm \<noteq> []" and "py_strip nm \<noteq> []"
    and "py_int prio = Inr p"
    and "set deps \<subseteq> set (pending_names m) \<union> completed_tasks m"
  shows "\<exists>heap. add_task m nm prio (Some deps) dl =
           (Inr \<lparr>name = nm, priority = p, dependencies = deps, deadline = dl\<rparr>,
            m\<lparr>tasks := heap, counter := counter m + 1,
              task_dependencies := record_edges deps nm (task_dependencies m)\<rparr>) \<and>
         mset heap =
           add_mset (p, counter m + 1, \<lparr>name = nm, priority = p, dependencies = deps, deadline = dl\<rparr>)
             (mset (tasks m))"
  using assms by (rule add_task_success)

text \<open>The theorem at the manager that holds \<open>A\<close>, adding \<open>A\<close> again, depending on \<open>A\<close>.\<close>

theorem add_task_ignores_name_collision_witness:
  "''A'' \<in> set (pending_names m_a) \<and>
   (\<exists>heap. add_task m_a ''A'' (PyStr ''7'') (Some [''A'']) None =
           (Inr \<lparr>name = ''A'', priority = 7, dependencies = [''A''], deadline = None\<rparr>,
            m_a\<lparr>tasks := heap, counter := counter m_a + 1,
              task_dependencies := record_edges [''A''] ''A'' (task_dependencies m_a)\<rparr>) \<and>
         mset heap =
           add_mset (7, counter m_a + 1, \<lparr>name = ''A'', priority = 7, dependencies = [''A''], deadline = None\<rparr>)
             (mset (tasks m_a)))"
proof -
  have c: "py_int (PyStr ''7'') = Inr 7" by code_simp
  have d: "py_strip ''A'' \<noteq> []" by code_simp
  have e: "set [''A''] \<subseteq> set (pending_names m_a) \<union> completed_tasks m_a"
    by (simp add: m_a_pending)
  show ?thesis
    using add_task_ignores_name_collision[OF m_a_fresh _ d c e, of None]
    by (simp add: m_a_pending)
qed

text \<open>
  C2 as stated fails: with \<open>A\<close> pending, \<open>add_task("A", "1")\<close> returns the task, and two
  pending entries are named \<open>A\<close>.
\<close>

theorem name_reuse_counterexample:
  "''A'' \<in> set (pending_names m_a) \<and>
   fst (add_task m_a ''A'' (PyStr ''1'') None None) =
     Inr \<lparr>name = ''A'', priority = 1, dependencies = [], deadline = None\<rparr> \<and>
   pending_names (snd (add_task m_a ''A'' (PyStr ''1'') None None)) = [''A'', ''A'']"
  by code_simp

section \<open>The dictionary of dependents\<close>

text \<open>
  Claim C4, as the code has it. The dependents of a name are a list and recording
  appends: after a successful \<open>add_task\<close> the list under \<open>d\<close> is the list before,
  followed by the new name once for every occurrence of \<open>d\<close> among the dependencies of
  the task; the lists of other names are as before. So nothing recorded is lost, two
  tasks that depend on \<open>d\<close> are both listed, and an edge recorded twice is listed twice.
\<close>

theorem add_task_appends_edges:
  assumes "add_task m nm prio deps_arg dl = (Inr t, m')"
  shows "task_dependencies m' d =
           (if d \<in> set (dependencies t)
            then Some ((case task_dependencies m d of None \<Rightarrow> [] | Some ds \<Rightarrow> ds) @
                       replicate (count_list (dependencies t) d) nm)
            else task_dependencies m d)"
proof -
  from add_task_Inr[OF assms]
  have "task_dependencies m' = record_edges (dependencies t) nm (task_dependencies m)"
    by blast
  then show ?thesis by (simp only: record_edges_lookup)
qed

text \<open>Two tasks, \<open>B\<close> and then \<open>C\<close>, each depending on \<open>A\<close>.\<close>

theorem add_task_appends_edges_witness:
  "task_dependencies m_ab ''A'' = Some [''B''] \<and>
   task_dependencies (snd (add_task m_ab ''C'' (PyStr ''3'') (Some [''A'']) None)) ''A'' =
     Some [''B'', ''C'']"
proof -
  let ?r = "add_task m_ab ''C'' (PyStr ''3'') (Some [''A'']) None"
  let ?t = "\<lparr>name = ''C'', priority = 3, dependencies = [''A''], deadline = None\<rparr>"
  have f: "fst ?r = Inr ?t" by code_simp
  have r: "?r = (Inr ?t, snd ?r)" using f by (simp add: prod_eq_iff)
  have old: "task_dependencies m_ab ''A'' = Some [''B'']" by code_simp
  show ?thesis
    using add_task_appends_edges[OF r, of "''A''"] old by simp
qed

text \<open>
  C4 as stated fails: \<open>add_task("B", "2", ["A", "A"])\<close> lists \<open>B\<close> twice under \<open>A\<close>.
\<close>

theorem duplicate_edge_counterexample:
  "task_dependencies m_dup ''A'' = Some [''B'', ''B''] \<and>
   \<not> distinct (the (task_dependencies m_dup ''A''))"
  by code_simp

section \<open>Validation of the name and the priority\<close>

text \<open>
  Claim C8, as the code has it. A name that is empty or consists of whitespace is
  rejected as an invalid name, whatever the other arguments. With any other name, a
  priority on which \<open>int\<close> raises \<open>ValueError\<close>, in particular a text that is not a
  decimal integer or has more digits than the interpreter converts, is rejected as an
  invalid priority. In both cases the manager is
  returned as it was. A finite float is not rejected: \<open>int\<close> truncates it and the
  truncated value is the priority of the task returned.
\<close>

theorem add_task_validation:
  "((\<forall>c\<in>set nm. py_isspace c) \<longrightarrow> add_task m nm prio deps dl = (Inl InvalidName, m)) \<and>
   ((\<exists>c\<in>set nm. \<not> py_isspace c) \<and> py_int prio = Inl PyValueError \<longrightarrow>
      add_task m nm prio deps dl = (Inl InvalidPriority, m)) \<and>
   ((\<exists>c\<in>set nm. \<not> py_isspace c) \<and> py_int_of_str s = None \<longrightarrow>
      add_task m nm (PyStr s) deps dl = (Inl InvalidPriority, m)) \<and>
   ((\<exists>c\<in>set nm. \<not> py_isspace c) \<and> counters_fresh m \<longrightarrow>
      fst (add_task m nm (PyFloat (Finite mant ex)) (Some []) dl) =
        Inr \<lparr>name = nm, priority = py_trunc mant ex, dependencies = [], deadline = dl\<rparr>)"
proof (intro conjI impI)
  assume "\<forall>c\<in>set nm. py_isspace c"
  then have "py_strip nm = []" by (simp add: py_strip_empty_iff)
  then show "add_task m nm prio deps dl = (Inl InvalidName, m)" by (simp add: add_task_blank)
next
  assume a: "(\<exists>c\<in>set nm. \<not> py_isspace c) \<and> py_int prio = Inl PyValueError"
  then have "py_strip nm \<noteq> []" "nm \<noteq> []" by (auto simp: py_strip_empty_iff)
  with a show "add_task m nm prio deps dl = (Inl InvalidPriority, m)"
    by (simp add: add_task_bad_priority)
next
  assume a: "(\<exists>c\<in>set nm. \<not> py_isspace c) \<and> py_int_of_str s = None"
  then have "py_strip nm \<noteq> []" "nm \<noteq> []" by (auto simp: py_strip_empty_iff)
  moreover have "py_int (PyStr s) = Inl PyValueError" using a by simp
  ultimately show "add_task m nm (PyStr s) deps dl = (Inl InvalidPriority, m)"
    by (simp add: add_task_bad_priority del: py_int.simps)
next
  assume a: "(\<exists>c\<in>set nm. \<not> py_isspace c) \<and> counters_fresh m"
  then have n: "nm \<noteq> []" "py_strip nm \<noteq> []" by (auto simp: py_strip_empty_iff)
  have p: "py_int (PyFloat (Finite mant ex)) = Inr (py_trunc mant ex)" by simp
  from add_task_success[OF _ n p, of m "[]" dl] a
  show "fst (add_task m nm (PyFloat (Finite mant ex)) (Some []) dl) =
        Inr \<lparr>name = nm, priority = py_trunc mant ex, dependencies = [], deadline = dl\<rparr>"
    by auto
qed

text \<open>
  A name of two spaces; the priorities NaN, \<open>"3.5"\<close> and the digit 5 after the character
  28, which \<open>strip\<close> would remove and \<open>int\<close> does not skip; and the float \<open>-3.5\<close>.
\<close>

theorem add_task_validation_witness:
  "add_task m_a ''  '' (PyStr ''1'') None None = (Inl InvalidName, m_a) \<and>
   add_task m_a ''t'' (PyFloat NaN) None None = (Inl InvalidPriority, m_a) \<and>
   add_task m_a ''t'' (PyStr ''3.5'') None None = (Inl InvalidPriority, m_a) \<and>
   add_task m_a ''t'' (PyStr [CHR 0x1C, CHR ''5'']) None None = (Inl InvalidPriority, m_a) \<and>
   fst (add_task m_a ''t'' (PyFloat (Finite (- 7) (- 1))) (Some []) None) =
     Inr \<lparr>name = ''t'', priority = - 3, dependencies = [], deadline = None\<rparr>"
proof -
  have sp: "\<forall>c\<in>set ''  ''. py_isspace c" by code_simp
  have t: "\<exists>c\<in>set ''t''. \<not> py_isspace c" by code_simp
  have s: "py_int_of_str ''3.5'' = None" by code_simp
  have tr: "py_trunc (- 7) (- 1) = - 3" by code_simp
  have fs: "py_int_of_str [CHR 0x1C, CHR ''5''] = None" by code_simp
  show ?thesis
    using add_task_validation[where nm = "''t''" and m = m_a and deps = None and dl = None
        and s = "[CHR 0x1C, CHR ''5'']"] fs
      add_task_validation[where nm = "''  ''" and m = m_a and prio = "PyStr ''1''"
        and deps = None and dl = None]
      add_task_validation[where nm = "''t''" and m = m_a and prio = "PyFloat NaN" and deps = None
        and dl = None and s = "''3.5''" and mant = "- 7" and ex = "- 1"]
      sp t s tr m_a_fresh
    by simp
qed

text \<open>
  C8 as stated fails: the priority \<open>2.5\<close> is not an integer, and \<open>add_task\<close> stores the
  task with priority \<open>2\<close>.
\<close>

theorem float_priority_counterexample:
  "fst (add_task m_empty ''t'' (PyFloat (Finite 5 (- 1))) None None) =
     Inr \<lparr>name = ''t'', priority = 2, dependencies = [], deadline = None\<rparr> \<and>
   map entry_priority (tasks (snd (add_task m_empty ''t'' (PyFloat (Finite 5 (- 1))) None None))) = [2]"
  by code_simp

section \<open>A task cannot depend on itself under a fresh name\<close>

text \<open>
  Claim C10. When \<open>N\<close> is neither pending nor completed and the dependencies contain
  \<open>N\<close>, \<open>add_task\<close> with the name \<open>N\<close> raises and leaves the manager as it was, because
  the dependencies are checked before the task is inserted. With a name that is not
  blank and a priority that \<open>int\<close> accepts, the error is the one about dependencies and
  \<open>N\<close> is among the names it carries; when \<open>N\<close> is the only dependency it carries
  \<open>N\<close> alone.
\<close>

theorem add_task_self_dependency:
  assumes "N \<notin> set (pending_names m)" and "N \<notin> completed_tasks m" and "N \<in> set deps"
  shows "snd (add_task m N prio (Some deps) dl) = m \<and>
         (\<exists>e. fst (add_task m N prio (Some deps) dl) = Inl e) \<and>
         ((\<exists>c\<in>set N. \<not> py_isspace c) \<and> py_int prio = Inr p \<longrightarrow>
            (\<exists>names. fst (add_task m N prio (Some deps) dl) = Inl (UnknownDependency names) \<and>
                     N \<in> set names)) \<and>
         ((\<exists>c\<in>set N. \<not> py_isspace c) \<and> py_int prio = Inr p \<and> deps = [N] \<longrightarrow>
            add_task m N prio (Some deps) dl = (Inl (UnknownDependency [N]), m))"
proof -
  let ?inv = "filter (\<lambda>dep. dep \<notin> set (pending_names m) \<and> dep \<notin> completed_tasks m) deps"
  have mem: "N \<in> set ?inv" using assms by simp
  have ne: "?inv \<noteq> []" by (rule member_not_Nil[OF mem])
  have valid: "add_task m N prio (Some deps) dl = (Inl (UnknownDependency ?inv), m)"
    if "(\<exists>c\<in>set N. \<not> py_isspace c) \<and> py_int prio = Inr p"
  proof -
    from that have "N \<noteq> []" "py_strip N \<noteq> []" by (auto simp: py_strip_empty_iff)
    with that ne show ?thesis by (simp add: add_task_unknown)
  qed
  have single: "deps = [N] \<Longrightarrow> ?inv = [N]" using assms by simp
  show ?thesis
  proof (intro conjI impI)
    show "snd (add_task m N prio (Some deps) dl) = m"
      using add_task_rejects[OF ne, of N prio dl] by blast
  next
    show "\<exists>e. fst (add_task m N prio (Some deps) dl) = Inl e"
      using add_task_rejects[OF ne, of N prio dl] by blast
  next
    assume v: "(\<exists>c\<in>set N. \<not> py_isspace c) \<and> py_int prio = Inr p"
    show "\<exists>names. fst (add_task m N prio (Some deps) dl) = Inl (UnknownDependency names) \<and>
                     N \<in> set names"
      using valid[OF v] mem by (intro exI[of _ ?inv]) simp
  next
    assume v: "(\<exists>c\<in>set N. \<not> py_isspace c) \<and> py_int prio = Inr p \<and> deps = [N]"
    then have "(\<exists>c\<in>set N. \<not> py_isspace c) \<and> py_int prio = Inr p" by blast
    from valid[OF this] single v
    show "add_task m N prio (Some deps) dl = (Inl (UnknownDependency [N]), m)" by simp
  qed
qed

text \<open>\<open>add_task("B", "2", ["B"])\<close> where only \<open>A\<close> exists.\<close>

theorem add_task_self_dependency_witness:
  "add_task m_a ''B'' (PyStr ''2'') (Some [''B'']) None = (Inl (UnknownDependency [''B'']), m_a)"
proof -
  have c: "py_int (PyStr ''2'') = Inr 2" by code_simp
  have t: "\<exists>c\<in>set ''B''. \<not> py_isspace c" by code_simp
  show ?thesis
    using add_task_self_dependency[where N = "''B''" and m = m_a and deps = "[''B'']"
        and prio = "PyStr ''2''" and p = 2 and dl = None] c t
    by (simp add: m_a_pending m_a_completed del: py_int.simps)
qed

section \<open>Completion, and the counters of the pending entries\<close>

lemma find_task_Some:
  "find_task n xs i = Some (j, t) \<Longrightarrow>
   i \<le> j \<and> j - i < length xs \<and> entry_task (xs ! (j - i)) = t \<and> name t = n"
proof (induction xs arbitrary: i)
  case Nil
  then show ?case by simp
next
  case (Cons e es)
  show ?case
  proof (cases "name (entry_task e) = n")
    case True
    with Cons.prems show ?thesis by auto
  next
    case False
    with Cons.prems have "find_task n es (Suc i) = Some (j, t)" by simp
    from Cons.IH[OF this] show ?thesis
      by (auto simp: Suc_diff_Suc less_eq_Suc_le nth_Cons')
  qed
qed

lemma find_task_None: "find_task n xs i = None \<longleftrightarrow> n \<notin> set (map (\<lambda>e. name (entry_task e)) xs)"
  by (induction xs arbitrary: i) auto

lemma mset_del_index: "i < length xs \<Longrightarrow> mset (del_index xs i) = mset xs - {#xs ! i#}"
proof -
  assume i: "i < length xs"
  have "xs = take i xs @ xs ! i # drop (Suc i) xs" using i by (rule id_take_nth_drop)
  then have "mset xs = mset (take i xs @ xs ! i # drop (Suc i) xs)" by simp
  also have "\<dots> = add_mset (xs ! i) (mset (take i xs @ drop (Suc i) xs))" by simp
  finally show ?thesis by (simp add: del_index_def)
qed

lemma distinct_del_index:
  assumes "distinct (map f xs)"
  shows "distinct (map f (del_index xs i))"
proof -
  have "map f (del_index xs i) = take i (map f xs) @ drop (Suc i) (map f xs)"
    by (simp add: del_index_def take_map drop_map)
  moreover have "set (take i (map f xs)) \<inter> set (drop (Suc i) (map f xs)) = {}"
    using assms by (intro set_take_disj_set_drop_if_distinct) simp_all
  ultimately show ?thesis using assms by simp
qed

lemma set_del_index: "set (del_index xs i) \<subseteq> set xs"
proof -
  have "set (take i xs) \<subseteq> set xs" by (rule set_take_subset)
  moreover have "set (drop (Suc i) xs) \<subseteq> set xs" by (rule set_drop_subset)
  ultimately show ?thesis by (simp add: del_index_def)
qed

lemma heapify_del_index:
  assumes "distinct (map entry_counter xs)"
  shows "\<exists>heap. heapify (del_index xs i) = Inr heap \<and> mset heap = mset (del_index xs i)"
proof -
  have "distinct (map entry_counter (del_index xs i))"
    using assms by (rule distinct_del_index)
  then have "comparable (set (del_index xs i))" by (rule comparable_distinct)
  then show ?thesis by (rule heapify_ok)
qed

lemma complete_task_success:
  assumes f: "find_task A (tasks m) 0 = Some (i, t)"
    and deps: "set (dependencies t) \<subseteq> completed_tasks m"
    and free: "\<forall>ds. task_dependencies m A = Some ds \<longrightarrow> set ds \<subseteq> completed_tasks m"
    and d: "distinct (map entry_counter (tasks m))"
  shows "\<exists>heap. complete_task m A =
           (Completed, m\<lparr>tasks := heap, completed_tasks := insert A (completed_tasks m)\<rparr>) \<and>
         mset heap = mset (tasks m) - {#tasks m ! i#}"
proof -
  from find_task_Some[OF f] have i: "i < length (tasks m)" by simp
  have pend: "snd (is_task_executable m t) = []"
    using deps by (auto simp: is_task_executable_def Let_def filter_empty_conv)
  have blocked: "(case task_dependencies m A of None \<Rightarrow> []
      | Some dependientes \<Rightarrow> filter (\<lambda>dep. dep \<notin> completed_tasks m) dependientes) = []"
    using free by (auto simp: filter_empty_conv split: option.splits)
  from heapify_del_index[OF d, of i] obtain heap where
    h: "heapify (del_index (tasks m) i) = Inr heap" "mset heap = mset (del_index (tasks m) i)"
    by blast
  have "complete_task m A =
      (Completed, m\<lparr>tasks := heap, completed_tasks := insert A (completed_tasks m)\<rparr>)"
    using f pend blocked h(1) by (simp add: complete_task_def Let_def)
  moreover have "mset heap = mset (tasks m) - {#tasks m ! i#}"
    using h(2) i by (simp add: mset_del_index)
  ultimately show ?thesis by blast
qed

lemma complete_task_blocked:
  assumes f: "find_task A (tasks m) 0 = Some (i, t)"
    and deps: "set (dependencies t) \<subseteq> completed_tasks m"
    and ds: "task_dependencies m A = Some ds"
    and b: "\<not> set ds \<subseteq> completed_tasks m"
  shows "complete_task m A =
           (BlockedByDependents (filter (\<lambda>dep. dep \<notin> completed_tasks m) ds), m)"
proof -
  have pend: "snd (is_task_executable m t) = []"
    using deps by (auto simp: is_task_executable_def Let_def filter_empty_conv)
  have "filter (\<lambda>dep. dep \<notin> completed_tasks m) ds \<noteq> []"
    using b by (auto simp: filter_empty_conv)
  then show ?thesis
    using f pend ds by (simp add: complete_task_def Let_def)
qed

lemma complete_task_state:
  assumes d: "distinct (map entry_counter (tasks m))"
  shows "snd (complete_task m A) = m \<or>
         (\<exists>i heap. i < length (tasks m) \<and> mset heap = mset (del_index (tasks m) i) \<and>
            snd (complete_task m A) =
              m\<lparr>tasks := heap, completed_tasks := insert A (completed_tasks m)\<rparr>)"
proof (cases "find_task A (tasks m) 0")
  case None
  then show ?thesis by (simp add: complete_task_def)
next
  case (Some r)
  obtain i t where r: "r = (i, t)" by (cases r)
  from find_task_Some[OF Some[unfolded r]] have i: "i < length (tasks m)" by simp
  from heapify_del_index[OF d, of i] obtain heap where
    h: "heapify (del_index (tasks m) i) = Inr heap" "mset heap = mset (del_index (tasks m) i)"
    by blast
  show ?thesis
  proof (cases "snd (is_task_executable m t) \<noteq> []")
    case True
    with Some r show ?thesis by (simp add: complete_task_def Let_def)
  next
    case ex: False
    let ?b = "case task_dependencies m A of None \<Rightarrow> []
      | Some dependientes \<Rightarrow> filter (\<lambda>dep. dep \<notin> completed_tasks m) dependientes"
    show ?thesis
    proof (cases "?b \<noteq> []")
      case True
      with Some r ex show ?thesis by (simp add: complete_task_def Let_def)
    next
      case False
      with Some r ex h(1) have "snd (complete_task m A) =
          m\<lparr>tasks := heap, completed_tasks := insert A (completed_tasks m)\<rparr>"
        by (simp add: complete_task_def Let_def)
      with h(2) i show ?thesis by blast
    qed
  qed
qed

lemma add_task_state:
  assumes fresh: "counters_fresh m"
  shows "snd (add_task m nm prio deps_arg dl) = m \<or>
         (\<exists>heap p t. mset heap = add_mset (p, counter m + 1, t) (mset (tasks m)) \<and>
            fst (add_task m nm prio deps_arg dl) = Inr t \<and>
            snd (add_task m nm prio deps_arg dl) =
              m\<lparr>tasks := heap, counter := counter m + 1,
                task_dependencies := record_edges (dependencies t) nm (task_dependencies m)\<rparr>)"
proof -
  have push: "\<exists>heap. heappush (tasks m) (p, counter m + 1, t) = Inr heap \<and>
      mset heap = add_mset (p, counter m + 1, t) (mset (tasks m))" for p t
  proof -
    have "\<forall>e\<in>set (tasks m). entry_counter e \<noteq> counter m + 1"
      using fresh by (fastforce simp: counters_fresh_def)
    with fresh have "comparable (insert (p, counter m + 1, t) (set (tasks m)))"
      by (intro comparable_fresh) (simp_all add: counters_fresh_def)
    then show ?thesis by (rule heappush_ok)
  qed
  show ?thesis
  proof (cases "nm = [] \<or> py_strip nm = []")
    case True
    then show ?thesis by (simp add: add_task_blank)
  next
    case nb: False
    show ?thesis
    proof (cases "py_int prio")
      case (Inl e)
      with nb show ?thesis by (simp add: add_task_bad_priority)
    next
      case (Inr p)
      let ?deps = "case deps_arg of None \<Rightarrow> [] | Some ds \<Rightarrow> ds"
      let ?inv = "filter (\<lambda>dep. dep \<notin> set (pending_names m) \<and> dep \<notin> completed_tasks m) ?deps"
      let ?t = "\<lparr>name = nm, priority = p, dependencies = ?deps, deadline = dl\<rparr>"
      show ?thesis
      proof (cases "?inv = []")
        case False
        with nb Inr show ?thesis by (simp add: add_task_def Let_def)
      next
        case True
        from push[of p ?t] obtain heap where
          h: "heappush (tasks m) (p, counter m + 1, ?t) = Inr heap"
             "mset heap = add_mset (p, counter m + 1, ?t) (mset (tasks m))" by blast
        have "add_task m nm prio deps_arg dl =
            (Inr ?t, m\<lparr>tasks := heap, counter := counter m + 1,
               task_dependencies := record_edges ?deps nm (task_dependencies m)\<rparr>)"
          using nb Inr True h(1) by (simp add: add_task_def Let_def)
        with h(2) show ?thesis
          by (intro disjI2 exI[of _ heap] exI[of _ p] exI[of _ ?t]) simp
      qed
    qed
  qed
qed

lemma counters_fresh_add:
  assumes "counters_fresh m"
  shows "counters_fresh (snd (add_task m nm prio deps_arg dl))"
proof -
  from add_task_state[OF assms, of nm prio deps_arg dl]
  show ?thesis
  proof
    assume "snd (add_task m nm prio deps_arg dl) = m"
    with assms show ?thesis by simp
  next
    assume "\<exists>heap p t. mset heap = add_mset (p, counter m + 1, t) (mset (tasks m)) \<and>
            fst (add_task m nm prio deps_arg dl) = Inr t \<and>
            snd (add_task m nm prio deps_arg dl) =
              m\<lparr>tasks := heap, counter := counter m + 1,
                task_dependencies := record_edges (dependencies t) nm (task_dependencies m)\<rparr>"
    then obtain heap p t where
      h: "mset heap = add_mset (p, counter m + 1, t) (mset (tasks m))"
      and s: "snd (add_task m nm prio deps_arg dl) =
              m\<lparr>tasks := heap, counter := counter m + 1,
                task_dependencies := record_edges (dependencies t) nm (task_dependencies m)\<rparr>"
      by blast
    have m1: "mset (map entry_counter heap) = mset (map entry_counter ((p, counter m + 1, t) # tasks m))"
      using h by simp
    have old: "\<forall>e\<in>set (tasks m). entry_counter e \<le> counter m"
      using assms by (simp add: counters_fresh_def)
    have "counter m + 1 \<notin> set (map entry_counter (tasks m))"
    proof
      assume "counter m + 1 \<in> set (map entry_counter (tasks m))"
      then obtain e where "e \<in> set (tasks m)" "entry_counter e = counter m + 1"
        by (auto simp: image_iff)
      with old show False by fastforce
    qed
    then have "distinct (map entry_counter ((p, counter m + 1, t) # tasks m))"
      using assms by (simp add: counters_fresh_def entry_counter_def)
    with mset_eq_imp_distinct_iff[OF m1] have d: "distinct (map entry_counter heap)"
      by blast
    have "set_mset (mset heap) = set_mset (add_mset (p, counter m + 1, t) (mset (tasks m)))"
      using h by simp
    then have "set heap = insert (p, counter m + 1, t) (set (tasks m))" by simp
    with old have "\<forall>e\<in>set heap. entry_counter e \<le> counter m + 1"
      by (auto simp: entry_counter_def)
    with d s show ?thesis by (simp add: counters_fresh_def)
  qed
qed

lemma counters_fresh_complete:
  assumes "counters_fresh m"
  shows "counters_fresh (snd (complete_task m A))"
proof -
  have d: "distinct (map entry_counter (tasks m))" using assms by (simp add: counters_fresh_def)
  from complete_task_state[OF d, of A]
  show ?thesis
  proof
    assume "snd (complete_task m A) = m"
    with assms show ?thesis by simp
  next
    assume "\<exists>i heap. i < length (tasks m) \<and> mset heap = mset (del_index (tasks m) i) \<and>
            snd (complete_task m A) =
              m\<lparr>tasks := heap, completed_tasks := insert A (completed_tasks m)\<rparr>"
    then obtain i heap where
      h: "mset heap = mset (del_index (tasks m) i)"
      and s: "snd (complete_task m A) =
              m\<lparr>tasks := heap, completed_tasks := insert A (completed_tasks m)\<rparr>"
      by blast
    have m2: "mset (map entry_counter heap) = mset (map entry_counter (del_index (tasks m) i))"
      using h by simp
    have dd: "distinct (map entry_counter (del_index (tasks m) i))"
      using d by (rule distinct_del_index)
    from mset_eq_imp_distinct_iff[OF m2] dd have dh: "distinct (map entry_counter heap)"
      by simp
    have "set heap = set (del_index (tasks m) i)" using h by (rule mset_eq_setD)
    with set_del_index[of "tasks m" i] have sub: "set heap \<subseteq> set (tasks m)" by simp
    have old: "\<forall>e\<in>set (tasks m). entry_counter e \<le> counter m"
      using assms by (simp add: counters_fresh_def)
    have "\<forall>e\<in>set heap. entry_counter e \<le> counter m"
    proof
      fix e assume "e \<in> set heap"
      with sub have "e \<in> set (tasks m)" by blast
      with old show "entry_counter e \<le> counter m" by blast
    qed
    with dh s show ?thesis by (simp add: counters_fresh_def)
  qed
qed

lemma load_tasks_counters:
  "map entry_counter (tasks (fst (load_tasks m0 (Stored d)))) = [0 ..< length (json_tasks d)] \<and>
   map entry_task (tasks (fst (load_tasks m0 (Stored d)))) = json_tasks d \<and>
   map entry_priority (tasks (fst (load_tasks m0 (Stored d)))) = map priority (json_tasks d) \<and>
   counter (fst (load_tasks m0 (Stored d))) = length (json_tasks d)"
proof -
  have a: "map (entry_counter \<circ> (\<lambda>(index, t). (priority t, index, t))) xs = map fst xs" for xs :: "(nat \<times> task) list"
    by (induction xs) (auto simp: entry_counter_def)
  have b: "map (entry_task \<circ> (\<lambda>(index, t). (priority t, index, t))) xs = map snd xs" for xs :: "(nat \<times> task) list"
    by (induction xs) (auto simp: entry_task_def)
  have c: "map (entry_priority \<circ> (\<lambda>(index, t). (priority t, index, t))) xs = map (priority \<circ> snd) xs" for xs :: "(nat \<times> task) list"
    by (induction xs) (auto simp: entry_priority_def)
  have c': "map (priority \<circ> snd) (enumerate 0 ts) = map priority ts" for ts :: "task list"
  proof -
    have "map priority (map snd (enumerate 0 ts)) = map priority ts"
      by (simp only: map_snd_enumerate)
    then show ?thesis unfolding map_map .
  qed
  show ?thesis
    by (simp add: load_tasks_def a b c c')
qed

lemma counters_fresh_new: "counters_fresh (fst (new_manager f))"
proof (cases f)
  case (Stored d)
  let ?m = "fst (new_manager (Stored d))"
  from load_tasks_counters[of _ d]
  have c: "map entry_counter (tasks ?m) = [0 ..< length (json_tasks d)]"
    and n: "counter ?m = length (json_tasks d)"
    by (simp_all add: new_manager_def)
  have le: "entry_counter e \<le> counter ?m" if "e \<in> set (tasks ?m)" for e
  proof -
    from that have "entry_counter e \<in> set (map entry_counter (tasks ?m))" by simp
    then have "entry_counter e \<in> set [0 ..< length (json_tasks d)]" unfolding c .
    then show ?thesis unfolding n by simp
  qed
  have "distinct (map entry_counter (tasks ?m))" unfolding c by simp
  with le show ?thesis using Stored by (simp add: counters_fresh_def)
qed (simp_all add: counters_fresh_def new_manager_def load_tasks_def)

lemma reachable_counters_fresh: "reachable m \<Longrightarrow> counters_fresh m"
  by (induction rule: reachable.induct)
    (simp_all add: counters_fresh_new counters_fresh_add counters_fresh_complete)

lemma complete_task_dependencies:
  "task_dependencies (snd (complete_task m A)) = task_dependencies m"
  by (simp add: complete_task_def Let_def split: option.splits prod.splits sum.splits)

lemma add_task_no_dependencies:
  "task_dependencies (snd (add_task m nm prio None dl)) = task_dependencies m"
  by (simp add: add_task_def Let_def split: sum.splits py_exception.splits prod.splits)

lemma m_empty_dependencies: "task_dependencies m_empty = Map.empty"
  by (simp add: m_empty_def new_manager_def load_tasks_def)

lemma load_saved:
  assumes "save_tasks m d"
  shows "map entry_task (tasks (fst (load_tasks m0 (Stored d)))) = map entry_task (tasks m) \<and>
         completed_tasks (fst (load_tasks m0 (Stored d))) = completed_tasks m \<and>
         task_dependencies (fst (load_tasks m0 (Stored d))) = task_dependencies m \<and>
         map entry_counter (tasks (fst (load_tasks m0 (Stored d)))) = [0 ..< length (tasks m)] \<and>
         map entry_priority (tasks (fst (load_tasks m0 (Stored d)))) =
           map (\<lambda>e. priority (entry_task e)) (tasks m) \<and>
         counter (fst (load_tasks m0 (Stored d))) = length (tasks m) \<and>
         snd (load_tasks m0 (Stored d)) = Stored d"
proof -
  from assms have j: "json_tasks d = map entry_task (tasks m)"
    and c: "set (json_completed_tasks d) = completed_tasks m"
    and t: "json_task_dependencies d = task_dependencies m"
    by (simp_all add: save_tasks_def)
  have "completed_tasks (fst (load_tasks m0 (Stored d))) = completed_tasks m"
    using c by (simp add: load_tasks_def)
  moreover have "task_dependencies (fst (load_tasks m0 (Stored d))) = task_dependencies m"
    using t by (simp add: load_tasks_def)
  moreover have "snd (load_tasks m0 (Stored d)) = Stored d" by (simp add: load_tasks_def)
  moreover have "map priority (json_tasks d) = map (\<lambda>e. priority (entry_task e)) (tasks m)"
    unfolding j by simp
  ultimately show ?thesis
    using load_tasks_counters[of m0 d] j by simp
qed

section \<open>The dictionary of dependents covers the pending tasks\<close>

lemma from_scratch_reachable: "from_scratch m \<Longrightarrow> reachable m"
  by (induction rule: from_scratch.induct) (simp_all add: reachable.intros)

lemma index_completeD:
  assumes "index_complete m" and "e \<in> set (tasks m)" and "d \<in> set (dependencies (entry_task e))"
  shows "\<exists>ds. task_dependencies m d = Some ds \<and> name (entry_task e) \<in> set ds"
proof -
  from assms have "case task_dependencies m d of None \<Rightarrow> False
      | Some ds \<Rightarrow> name (entry_task e) \<in> set ds"
    unfolding index_complete_def by blast
  then show ?thesis by (cases "task_dependencies m d") simp_all
qed

lemma index_completeI:
  assumes "\<And>e d. e \<in> set (tasks m) \<Longrightarrow> d \<in> set (dependencies (entry_task e)) \<Longrightarrow>
      \<exists>ds. task_dependencies m d = Some ds \<and> name (entry_task e) \<in> set ds"
  shows "index_complete m"
  unfolding index_complete_def
proof (intro ballI)
  fix e d assume "e \<in> set (tasks m)" "d \<in> set (dependencies (entry_task e))"
  from assms[OF this] obtain ds where "task_dependencies m d = Some ds" "name (entry_task e) \<in> set ds"
    by blast
  then show "case task_dependencies m d of None \<Rightarrow> False
      | Some ds \<Rightarrow> name (entry_task e) \<in> set ds" by simp
qed

lemma index_complete_add:
  assumes fresh: "counters_fresh m" and ic: "index_complete m"
  shows "index_complete (snd (add_task m nm prio deps_arg dl))"
proof -
  let ?m' = "snd (add_task m nm prio deps_arg dl)"
  from add_task_state[OF fresh, of nm prio deps_arg dl]
  show ?thesis
  proof
    assume "?m' = m"
    with ic show ?thesis by simp
  next
    assume "\<exists>heap p t. mset heap = add_mset (p, counter m + 1, t) (mset (tasks m)) \<and>
            fst (add_task m nm prio deps_arg dl) = Inr t \<and>
            ?m' = m\<lparr>tasks := heap, counter := counter m + 1,
                task_dependencies := record_edges (dependencies t) nm (task_dependencies m)\<rparr>"
    then obtain heap p t where
      h: "mset heap = add_mset (p, counter m + 1, t) (mset (tasks m))"
      and f: "fst (add_task m nm prio deps_arg dl) = Inr t"
      and s: "?m' = m\<lparr>tasks := heap, counter := counter m + 1,
                task_dependencies := record_edges (dependencies t) nm (task_dependencies m)\<rparr>"
      by blast
    have eq: "add_task m nm prio deps_arg dl = (Inr t, ?m')" using f by (simp add: prod_eq_iff)
    from add_task_Inr[OF eq] have nt: "name t = nm" by blast
    have "set_mset (mset heap) = set_mset (add_mset (p, counter m + 1, t) (mset (tasks m)))"
      using h by simp
    then have sh: "set heap = insert (p, counter m + 1, t) (set (tasks m))" by simp
    have tk: "tasks ?m' = heap" using s by simp
    have td: "task_dependencies ?m' = record_edges (dependencies t) nm (task_dependencies m)"
      using s by simp
    show ?thesis
    proof (rule index_completeI)
      fix e d assume e: "e \<in> set (tasks ?m')" and d: "d \<in> set (dependencies (entry_task e))"
      from e tk sh have "e = (p, counter m + 1, t) \<or> e \<in> set (tasks m)" by simp
      then show "\<exists>ds. task_dependencies ?m' d = Some ds \<and> name (entry_task e) \<in> set ds"
      proof
        assume new: "e = (p, counter m + 1, t)"
        then have et: "entry_task e = t" by (simp add: entry_task_def)
        with d have dt: "d \<in> set (dependencies t)" by simp
        have "count_list (dependencies t) d \<noteq> 0"
          using dt count_list_0_iff[of "dependencies t" d] by blast
        then have "0 < count_list (dependencies t) d" by simp
        then have "nm \<in> set (replicate (count_list (dependencies t) d) nm)" by simp
        with dt show ?thesis
          unfolding td et nt by (simp add: record_edges_lookup)
      next
        assume old: "e \<in> set (tasks m)"
        from index_completeD[OF ic old d] obtain ds where
          ds: "task_dependencies m d = Some ds" "name (entry_task e) \<in> set ds" by blast
        then show ?thesis
          unfolding td by (simp add: record_edges_lookup)
      qed
    qed
  qed
qed

lemma index_complete_complete:
  assumes fresh: "counters_fresh m" and ic: "index_complete m"
  shows "index_complete (snd (complete_task m A))"
proof -
  let ?m' = "snd (complete_task m A)"
  have d: "distinct (map entry_counter (tasks m))" using fresh by (simp add: counters_fresh_def)
  from complete_task_state[OF d, of A]
  show ?thesis
  proof
    assume "?m' = m"
    with ic show ?thesis by simp
  next
    assume "\<exists>i heap. i < length (tasks m) \<and> mset heap = mset (del_index (tasks m) i) \<and>
            ?m' = m\<lparr>tasks := heap, completed_tasks := insert A (completed_tasks m)\<rparr>"
    then obtain i heap where
      h: "mset heap = mset (del_index (tasks m) i)"
      and s: "?m' = m\<lparr>tasks := heap, completed_tasks := insert A (completed_tasks m)\<rparr>"
      by blast
    have "set heap = set (del_index (tasks m) i)" using h by (rule mset_eq_setD)
    with set_del_index[of "tasks m" i] have sub: "set heap \<subseteq> set (tasks m)" by simp
    show ?thesis
    proof (rule index_completeI)
      fix e dd assume e: "e \<in> set (tasks ?m')" and dd: "dd \<in> set (dependencies (entry_task e))"
      from e s sub have "e \<in> set (tasks m)" by auto
      from index_completeD[OF ic this dd] s
      show "\<exists>ds. task_dependencies ?m' dd = Some ds \<and> name (entry_task e) \<in> set ds" by simp
    qed
  qed
qed

lemma index_complete_reload:
  assumes ic: "index_complete m" and sv: "save_tasks m d"
  shows "index_complete (fst (load_tasks m0 (Stored d)))"
proof (rule index_completeI)
  let ?m' = "fst (load_tasks m0 (Stored d))"
  fix e dd assume e: "e \<in> set (tasks ?m')" and dd: "dd \<in> set (dependencies (entry_task e))"
  from load_saved[OF sv, of m0]
  have t: "map entry_task (tasks ?m') = map entry_task (tasks m)"
    and td: "task_dependencies ?m' = task_dependencies m" by blast+
  from e have "entry_task e \<in> set (map entry_task (tasks ?m'))" by simp
  then have "entry_task e \<in> set (map entry_task (tasks m))" unfolding t .
  then obtain e0 where e0: "e0 \<in> set (tasks m)" "entry_task e0 = entry_task e" by auto
  from dd e0 have "dd \<in> set (dependencies (entry_task e0))" by simp
  from index_completeD[OF ic e0(1) this] e0(2) td
  show "\<exists>ds. task_dependencies ?m' dd = Some ds \<and> name (entry_task e) \<in> set ds" by simp
qed

lemma index_complete_empty:
  "f = Missing \<or> f = Corrupt \<Longrightarrow> index_complete (fst (new_manager f))"
  by (auto simp: index_complete_def new_manager_def load_tasks_def)

lemma from_scratch_index_complete: "from_scratch m \<Longrightarrow> index_complete m"
proof (induction rule: from_scratch.induct)
  case no_file
  show ?case by (simp add: index_complete_empty)
next
  case bad_file
  show ?case by (simp add: index_complete_empty)
next
  case (add m nm prio deps dl)
  from add.hyps have "counters_fresh m"
    by (intro reachable_counters_fresh from_scratch_reachable)
  then show ?case using add.IH by (rule index_complete_add)
next
  case (complete m nm)
  from complete.hyps have "counters_fresh m"
    by (intro reachable_counters_fresh from_scratch_reachable)
  then show ?case using complete.IH by (rule index_complete_complete)
next
  case (reload m d)
  show ?case
    unfolding new_manager_def using reload.IH reload.hyps(2) by (rule index_complete_reload)
qed

lemma m_ab_from_scratch: "from_scratch m_ab"
  unfolding m_ab_def m_a_def m_empty_def by (intro from_scratch.intros)

section \<open>Completion waits for the dependents\<close>

text \<open>
  Claim C1, as the code has it. Let \<open>A\<close> be pending, \<open>t\<close> the first entry of that name in
  the list, the one \<open>complete_task\<close> works on, and let all dependencies of \<open>t\<close> be
  completed. \<open>complete_task\<close> consults the dictionary of dependents, not the pending
  tasks: when the dependents recorded for \<open>A\<close> include a name that is not completed, it
  reports the recorded dependents that are not completed, in the order recorded, and
  leaves the manager as it was. Where the dictionary of dependents covers the pending
  tasks, as it does in every program that started without a file, this is the case as
  soon as a pending task lists \<open>A\<close> among its dependencies and its name is not
  completed. When every recorded dependent of \<open>A\<close> is completed (or none is recorded),
  and no two pending entries carry the same counter, which holds in every manager a
  program can hold, the call succeeds: the entry leaves the pending entries, the others
  stay, and \<open>A\<close> joins the completed names.
\<close>

theorem complete_task_dependents:
  assumes "find_task A (tasks m) 0 = Some (i, t)"
    and "set (dependencies t) \<subseteq> completed_tasks m"
  shows "(\<forall>ds. task_dependencies m A = Some ds \<and> \<not> set ds \<subseteq> completed_tasks m \<longrightarrow>
            complete_task m A =
              (BlockedByDependents (filter (\<lambda>dep. dep \<notin> completed_tasks m) ds), m)) \<and>
         (index_complete m \<longrightarrow>
            (\<forall>e\<in>set (tasks m).
               A \<in> set (dependencies (entry_task e)) \<and> name (entry_task e) \<notin> completed_tasks m \<longrightarrow>
               (\<exists>names. complete_task m A = (BlockedByDependents names, m) \<and>
                  name (entry_task e) \<in> set names))) \<and>
         (from_scratch m \<longrightarrow> index_complete m) \<and>
         ((\<forall>ds. task_dependencies m A = Some ds \<longrightarrow> set ds \<subseteq> completed_tasks m) \<and>
          distinct (map entry_counter (tasks m)) \<longrightarrow>
            (\<exists>heap. complete_task m A =
               (Completed, m\<lparr>tasks := heap, completed_tasks := insert A (completed_tasks m)\<rparr>) \<and>
               mset heap = mset (tasks m) - {#tasks m ! i#})) \<and>
         i < length (tasks m) \<and> entry_task (tasks m ! i) = t \<and> name t = A"
proof (intro conjI allI impI ballI)
  fix ds assume "task_dependencies m A = Some ds \<and> \<not> set ds \<subseteq> completed_tasks m"
  then show "complete_task m A =
      (BlockedByDependents (filter (\<lambda>dep. dep \<notin> completed_tasks m) ds), m)"
    using complete_task_blocked[OF assms] by blast
next
  fix e
  assume ic: "index_complete m" and e: "e \<in> set (tasks m)"
    and d: "A \<in> set (dependencies (entry_task e)) \<and> name (entry_task e) \<notin> completed_tasks m"
  from d have dA: "A \<in> set (dependencies (entry_task e))"
    and nc: "name (entry_task e) \<notin> completed_tasks m" by blast+
  from index_completeD[OF ic e dA] obtain ds where
    ds: "task_dependencies m A = Some ds" "name (entry_task e) \<in> set ds" by blast
  from ds(2) nc have b: "\<not> set ds \<subseteq> completed_tasks m" by blast
  let ?names = "filter (\<lambda>dep. dep \<notin> completed_tasks m) ds"
  have "complete_task m A = (BlockedByDependents ?names, m)"
    by (rule complete_task_blocked[OF assms ds(1) b])
  moreover have "name (entry_task e) \<in> set ?names" using ds(2) nc by simp
  ultimately show "\<exists>names. complete_task m A = (BlockedByDependents names, m) \<and>
                  name (entry_task e) \<in> set names" by blast
next
  assume "from_scratch m"
  then show "index_complete m" by (rule from_scratch_index_complete)
next
  assume "(\<forall>ds. task_dependencies m A = Some ds \<longrightarrow> set ds \<subseteq> completed_tasks m) \<and>
          distinct (map entry_counter (tasks m))"
  then show "\<exists>heap. complete_task m A =
               (Completed, m\<lparr>tasks := heap, completed_tasks := insert A (completed_tasks m)\<rparr>) \<and>
               mset heap = mset (tasks m) - {#tasks m ! i#}"
    using complete_task_success[OF assms] by blast
next
  show "i < length (tasks m)" using find_task_Some[OF assms(1)] by simp
  show "entry_task (tasks m ! i) = t" using find_task_Some[OF assms(1)] by simp
  show "name t = A" using find_task_Some[OF assms(1)] by simp
qed

text \<open>
  \<open>A\<close> with the pending dependent \<open>B\<close>; and \<open>A\<close> added again after \<open>A\<close> and its
  dependent \<open>B\<close> were completed.
\<close>

theorem complete_task_dependents_witness:
  "complete_task m_ab ''A'' = (BlockedByDependents [''B''], m_ab) \<and>
   from_scratch m_ab \<and> index_complete m_ab \<and>
   (\<exists>names. complete_task m_ab ''A'' = (BlockedByDependents names, m_ab) \<and> ''B'' \<in> set names) \<and>
   (\<exists>heap. complete_task m_again ''A'' =
      (Completed, m_again\<lparr>tasks := heap, completed_tasks := insert ''A'' (completed_tasks m_again)\<rparr>) \<and>
      mset heap = mset (tasks m_again) - {#tasks m_again ! 0#})"
proof -
  let ?a = "\<lparr>name = ''A'', priority = 1, dependencies = [], deadline = None\<rparr>"
  let ?b = "\<lparr>name = ''B'', priority = 2, dependencies = [''A''], deadline = None\<rparr>"
  have f1: "find_task ''A'' (tasks m_ab) 0 = Some (0, ?a)" by code_simp
  have d1: "set (dependencies ?a) \<subseteq> completed_tasks m_ab" by simp
  have t1: "task_dependencies m_ab ''A'' = Some [''B'']" by code_simp
  have c1: "completed_tasks m_ab = {}" by code_simp
  have e1: "(2, 2, ?b) \<in> set (tasks m_ab)" by code_simp
  have f2: "find_task ''A'' (tasks m_again) 0 = Some (0, ?a)" by code_simp
  have d2: "set (dependencies ?a) \<subseteq> completed_tasks m_again" by simp
  have t2: "task_dependencies m_again ''A'' = Some [''B'']" by code_simp
  have c2: "''B'' \<in> completed_tasks m_again" by code_simp
  have k2: "distinct (map entry_counter (tasks m_again))" by code_simp
  note th1 = complete_task_dependents[OF f1 d1]
  note th2 = complete_task_dependents[OF f2 d2]
  have blocked: "complete_task m_ab ''A'' = (BlockedByDependents [''B''], m_ab)"
    using th1 t1 c1 by simp
  from th1 have "from_scratch m_ab \<longrightarrow> index_complete m_ab" by (elim conjE)
  with m_ab_from_scratch have ic: "index_complete m_ab" by (rule rev_mp)
  from th1 ic have "\<forall>e\<in>set (tasks m_ab).
      ''A'' \<in> set (dependencies (entry_task e)) \<and> name (entry_task e) \<notin> completed_tasks m_ab \<longrightarrow>
      (\<exists>names. complete_task m_ab ''A'' = (BlockedByDependents names, m_ab) \<and>
         name (entry_task e) \<in> set names)"
    by (elim conjE) (rule mp)
  from bspec[OF this e1]
  have "\<exists>names. complete_task m_ab ''A'' = (BlockedByDependents names, m_ab) \<and>
      name (entry_task (2, 2, ?b)) \<in> set names"
    by (simp add: entry_task_def c1)
  then have named: "\<exists>names. complete_task m_ab ''A'' = (BlockedByDependents names, m_ab) \<and>
      ''B'' \<in> set names" by (simp add: entry_task_def)
  have succ: "\<exists>heap. complete_task m_again ''A'' =
      (Completed, m_again\<lparr>tasks := heap, completed_tasks := insert ''A'' (completed_tasks m_again)\<rparr>) \<and>
      mset heap = mset (tasks m_again) - {#tasks m_again ! 0#}"
    using th2 t2 c2 k2 by simp
  from blocked m_ab_from_scratch ic named succ show ?thesis by blast
qed

text \<open>
  C1 as stated fails: in the manager constructed from a file whose dictionary of
  dependents is empty, the pending task \<open>B\<close> declares \<open>A\<close> and is not completed, and
  \<open>complete_task("A")\<close> completes \<open>A\<close>.
\<close>

theorem unrecorded_dependent_counterexample:
  "reachable m_noidx \<and>
   find_task ''A'' (tasks m_noidx) 0 =
     Some (0, \<lparr>name = ''A'', priority = 1, dependencies = [], deadline = None\<rparr>) \<and>
   (2, 1, \<lparr>name = ''B'', priority = 2, dependencies = [''A''], deadline = None\<rparr>)
     \<in> set (tasks m_noidx) \<and>
   ''B'' \<notin> completed_tasks m_noidx \<and>
   fst (complete_task m_noidx ''A'') = Completed \<and>
   ''A'' \<in> completed_tasks (snd (complete_task m_noidx ''A''))"
proof -
  have r: "reachable m_noidx" unfolding m_noidx_def by (rule reachable.init)
  have rest: "find_task ''A'' (tasks m_noidx) 0 =
     Some (0, \<lparr>name = ''A'', priority = 1, dependencies = [], deadline = None\<rparr>) \<and>
   (2, 1, \<lparr>name = ''B'', priority = 2, dependencies = [''A''], deadline = None\<rparr>)
     \<in> set (tasks m_noidx) \<and>
   ''B'' \<notin> completed_tasks m_noidx \<and>
   fst (complete_task m_noidx ''A'') = Completed \<and>
   ''A'' \<in> completed_tasks (snd (complete_task m_noidx ''A''))"
    by code_simp
  from r rest show ?thesis by blast
qed

section \<open>The listing of pending tasks\<close>

text \<open>
  Claim C3, as the code has it. The listing sorts by priority only: it holds the
  pending entries, each once, in ascending priority, and entries of one priority keep
  the order they have in the list \<open>tasks\<close>, which \<open>heapq\<close> arranges and which need not be
  the order of insertion. After adding \<open>task1\<close> to \<open>task4\<close> with the priorities 5, 1, 5, 3
  the listing is \<open>task2\<close>, \<open>task4\<close>, \<open>task3\<close>, \<open>task1\<close>.
\<close>

theorem listed_tasks_by_priority:
  "sorted (map entry_priority (listed_tasks m)) \<and>
   mset (listed_tasks m) = mset (tasks m) \<and>
   filter (\<lambda>e. entry_priority e = k) (listed_tasks m) =
     filter (\<lambda>e. entry_priority e = k) (tasks m) \<and>
   map (\<lambda>e. name (entry_task e)) (listed_tasks m_four) =
     [''task2'', ''task4'', ''task3'', ''task1'']"
proof -
  have e: "entry_priority = (\<lambda>x. fst x)" by (rule ext) (simp add: entry_priority_def)
  have general: "sorted (map entry_priority (listed_tasks m)) \<and>
      mset (listed_tasks m) = mset (tasks m) \<and>
      filter (\<lambda>e. entry_priority e = k) (listed_tasks m) =
        filter (\<lambda>e. entry_priority e = k) (tasks m)"
    unfolding e listed_tasks_def
    by (simp add: sort_key_stable)
  have four: "map (\<lambda>e. name (entry_task e)) (listed_tasks m_four) =
      [''task2'', ''task4'', ''task3'', ''task1'']"
    by code_simp
  from general four show ?thesis by blast
qed

text \<open>
  C3 as stated fails: after adding \<open>task1\<close> to \<open>task4\<close> with the priorities 5, 1, 5, 3 the
  listing is \<open>task2\<close>, \<open>task4\<close>, \<open>task3\<close>, \<open>task1\<close>; the entry with counter 3 precedes the
  entry with counter 1 of the same priority.
\<close>

theorem listing_order_counterexample:
  "map (\<lambda>e. name (entry_task e)) (listed_tasks m_four) \<noteq>
     [''task2'', ''task4'', ''task1'', ''task3''] \<and>
   map (\<lambda>e. name (entry_task e)) (listed_tasks m_four) =
     [''task2'', ''task4'', ''task3'', ''task1''] \<and>
   map (\<lambda>e. (entry_priority e, entry_counter e)) (listed_tasks m_four) =
     [(1, 2), (3, 4), (5, 3), (5, 1)]"
  by code_simp

lemma add_task_new_entry:
  assumes fresh: "counters_fresh m" and r: "fst (add_task m nm prio deps dl) = Inr t"
  shows "counter (snd (add_task m nm prio deps dl)) = counter m + 1 \<and>
         (priority t, counter m + 1, t) \<in> set (tasks (snd (add_task m nm prio deps dl)))"
proof -
  let ?m' = "snd (add_task m nm prio deps dl)"
  have eq: "add_task m nm prio deps dl = (Inr t, ?m')" using r by (simp add: prod_eq_iff)
  from add_task_Inr[OF eq] have c: "counter ?m' = counter m + 1"
    and h: "heappush (tasks m) (priority t, counter m + 1, t) = Inr (tasks ?m')"
    by blast+
  have "\<forall>e\<in>set (tasks m). entry_counter e \<noteq> counter m + 1"
    using fresh by (fastforce simp: counters_fresh_def)
  with fresh have "comparable (insert (priority t, counter m + 1, t) (set (tasks m)))"
    by (intro comparable_fresh) (simp_all add: counters_fresh_def)
  from heappush_ok[OF this] h
  have "mset (tasks ?m') = add_mset (priority t, counter m + 1, t) (mset (tasks m))" by simp
  then have "set_mset (mset (tasks ?m')) =
      set_mset (add_mset (priority t, counter m + 1, t) (mset (tasks m)))" by simp
  then have "(priority t, counter m + 1, t) \<in> set (tasks ?m')" by simp
  with c show ?thesis by blast
qed

lemma complete_task_counter: "counter (snd (complete_task m A)) = counter m"
  by (simp add: complete_task_def Let_def split: option.splits prod.splits sum.splits)

lemma add_task_failure:
  assumes fresh: "counters_fresh m" and f: "fst (add_task m nm prio deps dl) = Inl e"
  shows "snd (add_task m nm prio deps dl) = m"
proof -
  from add_task_state[OF fresh, of nm prio deps dl] f show ?thesis by auto
qed

lemma assigned_increasing:
  "counters_fresh m \<Longrightarrow>
   sorted_wrt (<) (assigned m ops) \<and> (\<forall>s\<in>set (assigned m ops). counter m < s)"
proof (induction ops arbitrary: m)
  case Nil
  then show ?case by simp
next
  case (Cons op ops)
  show ?case
  proof (cases op)
    case (Complete nm)
    let ?m' = "snd (complete_task m nm)"
    have "counters_fresh ?m'" using Cons.prems by (rule counters_fresh_complete)
    from Cons.IH[OF this] show ?thesis
      using Complete by (simp add: complete_task_counter)
  next
    case (Add nm prio deps dl)
    let ?r = "add_task m nm prio deps dl"
    have fresh': "counters_fresh (snd ?r)" using Cons.prems by (rule counters_fresh_add)
    note ih = Cons.IH[OF fresh']
    show ?thesis
    proof (cases "fst ?r")
      case (Inl e)
      from add_task_failure[OF Cons.prems Inl] have "snd ?r = m" .
      with ih Inl Add show ?thesis by simp
    next
      case (Inr t)
      from add_task_new_entry[OF Cons.prems Inr] have c: "counter (snd ?r) = counter m + 1" by blast
      from ih have s: "sorted_wrt (<) (assigned (snd ?r) ops)"
        and b: "\<forall>s\<in>set (assigned (snd ?r) ops). counter (snd ?r) < s" by blast+
      have a: "assigned m (op # ops) = counter (snd ?r) # assigned (snd ?r) ops"
        using Add Inr by simp
      have "sorted_wrt (<) (counter (snd ?r) # assigned (snd ?r) ops)"
        using s b by simp
      moreover have "\<forall>s\<in>set (counter (snd ?r) # assigned (snd ?r) ops). counter m < s"
        using b c by auto
      ultimately show ?thesis unfolding a by blast
    qed
  qed
qed

section \<open>Counters\<close>

text \<open>
  Claim C7, as the code has it. In every manager a program can hold, the counters of
  the pending entries are pairwise different and none exceeds the counter of the
  manager; a successful \<open>add_task\<close> gives the new entry the counter plus one, and
  \<open>complete_task\<close> leaves the counter alone. So within one program, whatever it calls
  from there on, the counters given to new entries increase strictly, and each is
  larger than the counter of the manager before, hence larger than every counter
  loaded or given earlier in that program: none is used twice. Loading does not keep
  the counters: it numbers the entries from 0 in file order and sets the counter to
  their number.
\<close>

theorem counters_in_memory:
  assumes "reachable m"
  shows "distinct (map entry_counter (tasks m)) \<and>
         (\<forall>e\<in>set (tasks m). entry_counter e \<le> counter m) \<and>
         (\<forall>nm prio deps dl t. fst (add_task m nm prio deps dl) = Inr t \<longrightarrow>
            counter (snd (add_task m nm prio deps dl)) = counter m + 1 \<and>
            (priority t, counter m + 1, t) \<in> set (tasks (snd (add_task m nm prio deps dl)))) \<and>
         sorted_wrt (<) (assigned m ops) \<and>
         (\<forall>s\<in>set (assigned m ops). counter m < s) \<and>
         counter (snd (complete_task m A)) = counter m \<and>
         map entry_counter (tasks (fst (new_manager (Stored d)))) = [0 ..< length (json_tasks d)] \<and>
         counter (fst (new_manager (Stored d))) = length (json_tasks d)"
proof -
  have fresh: "counters_fresh m" using assms by (rule reachable_counters_fresh)
  have l: "map entry_counter (tasks (fst (new_manager (Stored d)))) = [0 ..< length (json_tasks d)] \<and>
         counter (fst (new_manager (Stored d))) = length (json_tasks d)"
    using load_tasks_counters[of _ d] by (simp add: new_manager_def)
  show ?thesis
    using fresh l add_task_new_entry[OF fresh] assigned_increasing[OF fresh, of ops]
      complete_task_counter[of m A]
    by (simp add: counters_fresh_def)
qed

text \<open>
  The manager holding \<open>A\<close> and the addition of \<open>B\<close>; a program that adds three tasks,
  fails to add one and completes one; and a file of two tasks.
\<close>

theorem counters_in_memory_witness:
  "distinct (map entry_counter (tasks m_a)) \<and> counter m_a = 1 \<and>
   counter (snd (add_task m_a ''B'' (PyStr ''2'') (Some [''A'']) None)) = counter m_a + 1 \<and>
   assigned m_empty
     [Add ''task1'' (PyStr ''1'') None None, Add ''  '' (PyStr ''1'') None None,
      Add ''task2'' (PyStr ''1'') None None, Complete ''task1'',
      Add ''task3'' (PyStr ''1'') None None] = [1, 2, 3] \<and>
   sorted_wrt (<) [1, 2, 3 :: nat] \<and>
   map entry_counter (tasks (fst (new_manager (Stored snap_ab)))) = [0, 1] \<and>
   counter (fst (new_manager (Stored snap_ab))) = 2"
proof -
  let ?ops = "[Add ''task1'' (PyStr ''1'') None None, Add ''  '' (PyStr ''1'') None None,
      Add ''task2'' (PyStr ''1'') None None, Complete ''task1'',
      Add ''task3'' (PyStr ''1'') None None]"
  have r: "reachable m_a"
    unfolding m_a_def m_empty_def by (intro reachable.intros)
  have r0: "reachable m_empty"
    unfolding m_empty_def by (intro reachable.intros)
  have f: "fst (add_task m_a ''B'' (PyStr ''2'') (Some [''A'']) None) =
      Inr \<lparr>name = ''B'', priority = 2, dependencies = [''A''], deadline = None\<rparr>" by code_simp
  have c: "counter m_a = 1" by code_simp
  have n: "length (json_tasks snap_ab) = 2" by (simp add: snap_ab_def)
  have u: "[0 ..< 2] = [0, Suc 0]" by (simp add: upt_rec)
  have a: "assigned m_empty ?ops = [1, 2, 3]" by code_simp
  have s: "sorted_wrt (<) (assigned m_empty ?ops)"
    using counters_in_memory[OF r0, of ?ops] by blast
  have rest: "distinct (map entry_counter (tasks m_a)) \<and> counter m_a = 1 \<and>
   counter (snd (add_task m_a ''B'' (PyStr ''2'') (Some [''A'']) None)) = counter m_a + 1 \<and>
   map entry_counter (tasks (fst (new_manager (Stored snap_ab)))) = [0, 1] \<and>
   counter (fst (new_manager (Stored snap_ab))) = 2"
    using counters_in_memory[OF r, of "[]" "''A''" snap_ab] f c n u by simp
  from s a rest show ?thesis by simp
qed

text \<open>
  C7 as stated fails: \<open>task2\<close> is created with counter 2; after \<open>task1\<close> is completed,
  the state saved and loaded again, \<open>task3\<close> is created with counter 2 as well.
\<close>

theorem sequence_reuse_counterexample:
  "map (\<lambda>e. (name (entry_task e), entry_counter e)) (tasks m_two) =
     [(''task1'', 1), (''task2'', 2)] \<and>
   save_tasks m_one snap_one \<and>
   map (\<lambda>e. (name (entry_task e), entry_counter e))
     (tasks (snd (add_task (fst (new_manager (Stored snap_one))) ''task3'' (PyStr ''1'') None None))) =
     [(''task2'', 0), (''task3'', 2)]"
proof -
  have a: "map (\<lambda>e. (name (entry_task e), entry_counter e)) (tasks m_two) =
     [(''task1'', 1), (''task2'', 2)]" by code_simp
  have b: "map (\<lambda>e. (name (entry_task e), entry_counter e))
     (tasks (snd (add_task (fst (new_manager (Stored snap_one))) ''task3'' (PyStr ''1'') None None))) =
     [(''task2'', 0), (''task3'', 2)]" by code_simp
  have t: "map entry_task (tasks m_one) = json_tasks snap_one" by code_simp
  have c: "completed_tasks m_one = set (json_completed_tasks snap_one)" by code_simp
  have d: "task_dependencies m_one = Map.empty"
    by (simp add: m_one_def m_two_def Let_def complete_task_dependencies
        add_task_no_dependencies m_empty_dependencies)
  have "save_tasks m_one snap_one"
    using t c d by (simp add: save_tasks_def snap_one_def)
  with a b show ?thesis by blast
qed

section \<open>Saving and loading\<close>

text \<open>
  Claim C9. Whatever \<open>save_tasks\<close> writes for a manager, loading it gives the same
  task dictionaries in the same order (names, priorities, dependencies, deadlines), the
  same completed set and the same dictionary of dependents; the entries are numbered
  from 0 in stored order, their priorities are those of the tasks, the counter is the
  number of tasks, and the file is left as it is.
\<close>

theorem save_load_round_trip:
  assumes "save_tasks m d"
  shows "map entry_task (tasks (fst (load_tasks m0 (Stored d)))) = map entry_task (tasks m) \<and>
         completed_tasks (fst (load_tasks m0 (Stored d))) = completed_tasks m \<and>
         task_dependencies (fst (load_tasks m0 (Stored d))) = task_dependencies m \<and>
         map entry_counter (tasks (fst (load_tasks m0 (Stored d)))) = [0 ..< length (tasks m)] \<and>
         map entry_priority (tasks (fst (load_tasks m0 (Stored d)))) =
           map (\<lambda>e. priority (entry_task e)) (tasks m) \<and>
         counter (fst (load_tasks m0 (Stored d))) = length (tasks m) \<and>
         snd (load_tasks m0 (Stored d)) = Stored d"
  using assms by (rule load_saved)

lemma save_tasks_exists:
  assumes "finite (completed_tasks m)"
  shows "\<exists>d. save_tasks m d"
proof -
  from finite_distinct_list[OF assms] obtain cs where
    cs: "set cs = completed_tasks m" "distinct cs" by blast
  let ?d = "\<lparr>json_tasks = map entry_task (tasks m), json_completed_tasks = cs,
             json_task_dependencies = task_dependencies m\<rparr>"
  have "save_tasks m ?d" using cs by (simp add: save_tasks_def)
  then show ?thesis ..
qed

text \<open>The manager holding \<open>A\<close> and its dependent \<open>B\<close>, and the file written for it.\<close>

theorem save_load_round_trip_witness:
  "save_tasks m_ab snap_ab \<and>
   map (\<lambda>e. name (entry_task e)) (tasks (fst (new_manager (Stored snap_ab)))) = [''A'', ''B''] \<and>
   map entry_task (tasks (fst (new_manager (Stored snap_ab)))) = map entry_task (tasks m_ab) \<and>
   completed_tasks (fst (new_manager (Stored snap_ab))) = completed_tasks m_ab \<and>
   task_dependencies (fst (new_manager (Stored snap_ab))) = task_dependencies m_ab \<and>
   task_dependencies (fst (new_manager (Stored snap_ab))) ''A'' = Some [''B'']"
proof -
  let ?r = "add_task m_a ''B'' (PyStr ''2'') (Some [''A'']) None"
  let ?b = "\<lparr>name = ''B'', priority = 2, dependencies = [''A''], deadline = None\<rparr>"
  have f: "fst ?r = Inr ?b" by code_simp
  have r: "?r = (Inr ?b, m_ab)" using f by (simp add: prod_eq_iff m_ab_def)
  have da: "task_dependencies m_a = Map.empty"
    by (simp add: m_a_def add_task_no_dependencies m_empty_dependencies)
  from add_task_Inr[OF r] have "task_dependencies m_ab = record_edges [''A''] ''B'' (task_dependencies m_a)"
    by simp
  then have d: "task_dependencies m_ab = [''A'' \<mapsto> [''B'']]" by (simp add: da)
  have t: "map entry_task (tasks m_ab) = json_tasks snap_ab" by code_simp
  have c: "completed_tasks m_ab = {}" by code_simp
  have s: "save_tasks m_ab snap_ab"
    using t c d by (simp add: save_tasks_def snap_ab_def)
  have n: "map (\<lambda>e. name (entry_task e)) (tasks (fst (new_manager (Stored snap_ab)))) = [''A'', ''B'']"
    by code_simp
  show ?thesis
    using save_load_round_trip[OF s, of "\<lparr>tasks = [], completed_tasks = {}, task_dependencies = Map.empty, counter = 0\<rparr>"]
      s n d by (simp add: new_manager_def)
qed

end
